theory Spec2Isabelle
  imports Main "HOL-Library.AList" "HOL-Library.Word"
begin

section \<open>Go values\<close>

text \<open>
  A Go \<^verbatim>\<open>map[K]V\<close> is an association list whose keys are distinct (\<open>wf_map\<close>). The order
  of the list stands for the order in which a \<^verbatim>\<open>range\<close> loop visits the map, which Go
  leaves unspecified: a statement proved for every association list holds for every
  iteration order. \<^verbatim>\<open>m[k] = v\<close> is \<open>AList.update\<close>, \<^verbatim>\<open>delete(m, k)\<close> is
  \<open>AList.delete\<close>, \<^verbatim>\<open>m[k]\<close> is \<open>map_of\<close> and \<^verbatim>\<open>len(m)\<close> is \<open>length\<close>.
\<close>

type_synonym uint64 = "64 word"

type_synonym ('k, 'v) gomap = "('k \<times> 'v) list"

definition wf_map :: "('k, 'v) gomap \<Rightarrow> bool" where
  "wf_map m = distinct (map fst m)"

text \<open>
  How a call ends: it returns, it never returns (a send on a channel nobody receives
  from), or the goroutine panics.
\<close>

datatype 'a outcome = Returned 'a | Blocked | Panicked

section \<open>Package sets\<close>

text \<open>
  \<^verbatim>\<open>type set[T comparable] struct { m map[T]struct{} }\<close>
\<close>

type_synonym 'a gset = "('a, unit) gomap"

definition Add :: "'a \<Rightarrow> 'a gset \<Rightarrow> 'a gset" where
  "Add t s = AList.update t () s"

definition Len :: "'a gset \<Rightarrow> nat" where
  "Len s = length s"

definition Iter :: "'a gset \<Rightarrow> 'a list" where
  "Iter s = map fst s"

definition FromSlice :: "'a list \<Rightarrow> 'a gset" where
  "FromSlice items = fold Add items []"

text \<open>The loop of \<^verbatim>\<open>Equals\<close>: the first item of \<open>s2\<close> that is not a key of \<open>s\<close> returns false.\<close>

fun Equals_loop :: "'a list \<Rightarrow> 'a gset \<Rightarrow> bool" where
  "Equals_loop [] s = True"
| "Equals_loop (item # rest) s =
     (if map_of s item = None then False else Equals_loop rest s)"

definition Equals :: "'a gset \<Rightarrow> 'a gset \<Rightarrow> bool" where
  "Equals s s2 = (if Len s2 \<noteq> Len s then False else Equals_loop (Iter s2) s)"

section \<open>Change detection\<close>

text \<open>
  The fields of \<^verbatim>\<open>MachineState\<close> and \<^verbatim>\<open>UserState\<close> carry the prefixes \<open>ms_\<close> and
  \<open>us_\<close>: the two structs share field names with each other and with \<^verbatim>\<open>Machine\<close>.
\<close>

record MachineState =
  ms_ID :: uint64
  ms_Online :: bool
  ms_ApprovedRoutes :: "string gset"
  ms_ExitNodeEnabled :: bool
  ms_Tags :: "string gset"

record UserState =
  us_ID :: uint64
  us_Name :: string
  us_MachineCount :: int

text \<open>
  The first two loops of \<^verbatim>\<open>detectMachineChanges\<close>: is there a key of \<open>a\<close> that \<open>b\<close>
  does not have?
\<close>

fun missing_key :: "('k, 'v) gomap \<Rightarrow> ('k, 'w) gomap \<Rightarrow> bool" where
  "missing_key [] b = False"
| "missing_key ((ident, v) # rest) b =
     (if map_of b ident = None then True else missing_key rest b)"

text \<open>
  The third loop. \<^verbatim>\<open>prev := previous[id]\<close> is a nil pointer when the key is absent,
  and reading \<^verbatim>\<open>prev.Online\<close> then panics.
\<close>

fun changed_existing ::
  "(uint64, MachineState) gomap \<Rightarrow> (uint64, MachineState) gomap \<Rightarrow> bool outcome" where
  "changed_existing [] previous = Returned False"
| "changed_existing ((ident, currSt) # rest) previous =
     (case map_of previous ident of
        None \<Rightarrow> Panicked
      | Some prevSt \<Rightarrow>
          if ms_Online currSt \<noteq> ms_Online prevSt then Returned True
          else if \<not> Equals (ms_ApprovedRoutes currSt) (ms_ApprovedRoutes prevSt) \<or>
                  ms_ExitNodeEnabled currSt \<noteq> ms_ExitNodeEnabled prevSt then Returned True
          else if \<not> Equals (ms_Tags currSt) (ms_Tags prevSt) then Returned True
          else changed_existing rest previous)"

definition detectMachineChanges ::
  "(uint64, MachineState) gomap \<Rightarrow> (uint64, MachineState) gomap \<Rightarrow> bool outcome" where
  "detectMachineChanges current previous =
     (if missing_key current previous then Returned True
      else if missing_key previous current then Returned True
      else changed_existing current previous)"

fun changed_user :: "(uint64, UserState) gomap \<Rightarrow> (uint64, UserState) gomap \<Rightarrow> bool" where
  "changed_user [] previous = False"
| "changed_user ((ident, currSt) # rest) previous =
     (case map_of previous ident of
        None \<Rightarrow> True
      | Some prevSt \<Rightarrow>
          if us_Name currSt \<noteq> us_Name prevSt \<or> us_MachineCount currSt \<noteq> us_MachineCount prevSt
          then True
          else changed_user rest previous)"

definition detectUserChanges ::
  "(uint64, UserState) gomap \<Rightarrow> (uint64, UserState) gomap \<Rightarrow> bool" where
  "detectUserChanges current previous =
     (if length current \<noteq> length previous then True else changed_user current previous)"

subsection \<open>What the detectors are compared with\<close>

text \<open>
  Two sets hold the same values when they have the same keys; two machine states when
  their tracked fields agree; two snapshot maps when they have the same identities and
  the states stored under each identity agree.
\<close>

definition keys :: "('k, 'v) gomap \<Rightarrow> 'k set" where
  "keys m = fst ` set m"

definition same_machine :: "MachineState \<Rightarrow> MachineState \<Rightarrow> bool" where
  "same_machine c p \<longleftrightarrow>
     ms_Online c = ms_Online p \<and>
     keys (ms_ApprovedRoutes c) = keys (ms_ApprovedRoutes p) \<and>
     ms_ExitNodeEnabled c = ms_ExitNodeEnabled p \<and>
     keys (ms_Tags c) = keys (ms_Tags p)"

definition same_user :: "UserState \<Rightarrow> UserState \<Rightarrow> bool" where
  "same_user c p \<longleftrightarrow> us_Name c = us_Name p \<and> us_MachineCount c = us_MachineCount p"

definition same_entries ::
  "('v \<Rightarrow> 'v \<Rightarrow> bool) \<Rightarrow> ('k, 'v) gomap \<Rightarrow> ('k, 'v) gomap \<Rightarrow> bool" where
  "same_entries R current previous \<longleftrightarrow>
     keys current = keys previous \<and>
     (\<forall>(i, c) \<in> set current. \<forall>(j, p) \<in> set previous. i = j \<longrightarrow> R c p)"

text \<open>A snapshot map as the poller builds it: distinct identities, sets with distinct keys.\<close>

definition wf_machines :: "(uint64, MachineState) gomap \<Rightarrow> bool" where
  "wf_machines m \<longleftrightarrow>
     wf_map m \<and> (\<forall>(i, s) \<in> set m. wf_map (ms_ApprovedRoutes s) \<and> wf_map (ms_Tags s))"

section \<open>Channels\<close>

text \<open>
  A buffered channel: its queue, its capacity and whether it has been closed. Channels
  are heap objects, so a channel value is a reference into a store of channels. A
  reference the store does not hold behaves as the nil channel.
\<close>

record 'a chan =
  ch_buf :: "'a list"
  ch_cap :: nat
  ch_closed :: bool

type_synonym chan_ref = nat

type_synonym 'a chan_store = "chan_ref \<rightharpoonup> 'a chan"

definition make_chan :: "nat \<Rightarrow> 'a chan" where
  "make_chan n = \<lparr>ch_buf = [], ch_cap = n, ch_closed = False\<rparr>"

definition and_then :: "'a outcome \<Rightarrow> ('a \<Rightarrow> 'b outcome) \<Rightarrow> 'b outcome" where
  "and_then r f = (case r of Returned x \<Rightarrow> f x | Blocked \<Rightarrow> Blocked | Panicked \<Rightarrow> Panicked)"

text \<open>
  \<^verbatim>\<open>select { case ch <- v: default: }\<close>: a send on a closed channel panics, a send on
  a channel with room appends, and otherwise the default case is taken.
\<close>

definition try_send :: "'a chan \<Rightarrow> 'a \<Rightarrow> 'a chan outcome" where
  "try_send ch v =
     (if ch_closed ch then Panicked
      else if length (ch_buf ch) < ch_cap ch then Returned (ch\<lparr>ch_buf := ch_buf ch @ [v]\<rparr>)
      else Returned ch)"

text \<open>\<^verbatim>\<open>close(ch)\<close>: closing a closed channel panics.\<close>

definition close_chan :: "'a chan \<Rightarrow> 'a chan outcome" where
  "close_chan ch = (if ch_closed ch then Panicked else Returned (ch\<lparr>ch_closed := True\<rparr>))"

text \<open>
  \<^verbatim>\<open>v := <-ch\<close>: the oldest queued value; on an empty closed channel the zero value,
  at once; on an empty open channel the receiver waits.
\<close>

definition recv :: "'a \<Rightarrow> 'a chan \<Rightarrow> ('a \<times> 'a chan) outcome" where
  "recv zero ch =
     (case ch_buf ch of
        v # rest \<Rightarrow> Returned (v, ch\<lparr>ch_buf := rest\<rparr>)
      | [] \<Rightarrow> if ch_closed ch then Returned (zero, ch) else Blocked)"

definition offer :: "'a chan_store \<Rightarrow> chan_ref \<Rightarrow> 'a \<Rightarrow> 'a chan_store outcome" where
  "offer h client v =
     (case h client of
        None \<Rightarrow> Returned h
      | Some ch \<Rightarrow> and_then (try_send ch v) (\<lambda>ch'. Returned (h(client \<mapsto> ch'))))"

definition close_ref :: "'a chan_store \<Rightarrow> chan_ref \<Rightarrow> 'a chan_store outcome" where
  "close_ref h client =
     (case h client of
        None \<Rightarrow> Panicked
      | Some ch \<Rightarrow> and_then (close_chan ch) (\<lambda>ch'. Returned (h(client \<mapsto> ch'))))"

section \<open>Package events: the broker\<close>

record Event =
  ev_Type :: string
  ev_HTML :: string

definition zero_Event :: Event where
  "zero_Event = \<lparr>ev_Type = [], ev_HTML = []\<rparr>"

text \<open>
  The broker together with the channels its subscribers hold. \<open>done_closed\<close> says that
  \<^verbatim>\<open>b.done\<close> has been closed, \<open>running\<close> that the goroutine started by \<^verbatim>\<open>NewBroker\<close>
  is still in its loop. \<^verbatim>\<open>b.register\<close> and \<^verbatim>\<open>b.unregister\<close> are unbuffered: a send on
  them completes when the loop receives it, and never once the loop has returned.
  \<open>chans\<close> is the store of the subscriber channels and \<open>next_ref\<close> its allocator.
\<close>

record Broker =
  clients :: "(chan_ref, bool) gomap"
  broadcast :: "Event chan"
  done_closed :: bool
  running :: bool
  chans :: "Event chan_store"
  next_ref :: chan_ref

definition NewBroker :: Broker where
  "NewBroker = \<lparr>clients = [], broadcast = make_chan 10, done_closed = False,
                 running = True, chans = Map.empty, next_ref = 0\<rparr>"

subsection \<open>The cases of the event loop\<close>

definition run_register :: "Broker \<Rightarrow> chan_ref \<Rightarrow> Broker" where
  "run_register b client = b\<lparr>clients := AList.update client True (clients b)\<rparr>"

definition run_unregister :: "Broker \<Rightarrow> chan_ref \<Rightarrow> Broker outcome" where
  "run_unregister b client =
     (if map_of (clients b) client \<noteq> None
      then and_then (close_ref (chans b) client)
             (\<lambda>h. Returned (b\<lparr>clients := AList.delete client (clients b), chans := h\<rparr>))
      else Returned b)"

fun fan_out :: "(chan_ref, bool) gomap \<Rightarrow> Event \<Rightarrow> Event chan_store \<Rightarrow> Event chan_store outcome" where
  "fan_out [] event h = Returned h"
| "fan_out ((client, v) # rest) event h = and_then (offer h client event) (fan_out rest event)"

definition run_broadcast :: "Broker \<Rightarrow> Broker outcome" where
  "run_broadcast b =
     and_then (recv zero_Event (broadcast b))
       (\<lambda>(event, ch). and_then (fan_out (clients b) event (chans b))
          (\<lambda>h. Returned (b\<lparr>broadcast := ch, chans := h\<rparr>)))"

fun close_all :: "(chan_ref, bool) gomap \<Rightarrow> Event chan_store \<Rightarrow> Event chan_store outcome" where
  "close_all [] h = Returned h"
| "close_all ((client, v) # rest) h = and_then (close_ref h client) (close_all rest)"

definition run_done :: "Broker \<Rightarrow> Broker outcome" where
  "run_done b =
     (if done_closed b
      then and_then (close_all (clients b) (chans b))
             (\<lambda>h. Returned (b\<lparr>clients := [], chans := h, running := False\<rparr>))
      else Blocked)"

subsection \<open>The operations of the broker\<close>

definition Subscribe :: "Broker \<Rightarrow> (Broker \<times> chan_ref) outcome" where
  "Subscribe b =
     (let client = next_ref b;
          b1 = b\<lparr>chans := (chans b)(client \<mapsto> make_chan 5), next_ref := Suc client\<rparr>
      in if running b then Returned (run_register b1 client, client) else Blocked)"

definition Unsubscribe :: "Broker \<Rightarrow> chan_ref \<Rightarrow> Broker outcome" where
  "Unsubscribe b client = (if running b then run_unregister b client else Blocked)"

definition Broadcast :: "Broker \<Rightarrow> Event \<Rightarrow> Broker outcome" where
  "Broadcast b event =
     and_then (try_send (broadcast b) event) (\<lambda>ch. Returned (b\<lparr>broadcast := ch\<rparr>))"

definition ClientCount :: "Broker \<Rightarrow> nat" where
  "ClientCount b = length (clients b)"

definition Close :: "Broker \<Rightarrow> Broker outcome" where
  "Close b = (if done_closed b then Panicked else Returned (b\<lparr>done_closed := True\<rparr>))"

text \<open>
  What holds of every broker that \<^verbatim>\<open>NewBroker\<close> made and only the operations above
  touched: the registry has distinct keys, every registered channel is open with
  capacity 5, the intake is open with capacity 10, and the allocator is ahead of every
  channel made so far.
\<close>

definition broker_inv :: "Broker \<Rightarrow> bool" where
  "broker_inv b \<longleftrightarrow>
     wf_map (clients b) \<and>
     (\<forall>c \<in> keys (clients b). \<exists>ch. chans b c = Some ch \<and> \<not> ch_closed ch \<and> ch_cap ch = 5) \<and>
     \<not> ch_closed (broadcast b) \<and> ch_cap (broadcast b) = 10 \<and>
     (\<forall>c. chans b c \<noteq> None \<longrightarrow> c < next_ref b)"

text \<open>What one non-blocking offer of \<open>e\<close> does to an open queue.\<close>

definition offered :: "Event \<Rightarrow> Event chan \<Rightarrow> Event chan" where
  "offered e ch = (if length (ch_buf ch) < ch_cap ch then ch\<lparr>ch_buf := ch_buf ch @ [e]\<rparr> else ch)"

section \<open>Package handlers: the transport loop\<close>

text \<open>\<^verbatim>\<open>strings.Split(s, "\n")\<close>\<close>

fun Split_newline :: "string \<Rightarrow> string list" where
  "Split_newline [] = [[]]"
| "Split_newline (c # cs) =
     (if c = CHR 0x0A then [] # Split_newline cs
      else (case Split_newline cs of
              line # lines \<Rightarrow> (c # line) # lines
            | [] \<Rightarrow> [[c]]))"

text \<open>The frame that one pass of the loop of \<^verbatim>\<open>HandleSSE\<close> writes for an event.\<close>

definition write_event :: "string \<Rightarrow> Event \<Rightarrow> string" where
  "write_event w event =
     w @ ''event: '' @ ev_Type event @ [CHR 0x0A]
       @ concat (map (\<lambda>line. ''data: '' @ line @ [CHR 0x0A]) (Split_newline (ev_HTML event)))
       @ [CHR 0x0A]"

text \<open>
  The loop of \<^verbatim>\<open>HandleSSE\<close>, run for at most \<open>fuel\<close> passes on its own (nobody else
  touches the channel meanwhile). \<open>ctx_done\<close> says that the request's context has been
  cancelled. When both cases of the \<^verbatim>\<open>select\<close> are ready Go picks one at random:
  \<open>pick n\<close> says whether the receive is picked with \<open>n\<close> passes left. The loop has
  \<open>Exited\<close>, is \<open>Waiting\<close> with no case ready, or is \<open>Looping\<close> still when the fuel is
  used up; each carries the channel and the bytes written so far. A receive never
  panics: the last branch is there because \<open>recv\<close> returns an outcome.
\<close>

datatype transport = Exited "Event chan" string | Waiting "Event chan" string | Looping "Event chan" string

fun HandleSSE_loop :: "nat \<Rightarrow> (nat \<Rightarrow> bool) \<Rightarrow> bool \<Rightarrow> Event chan \<Rightarrow> string \<Rightarrow> transport" where
  "HandleSSE_loop 0 pick ctx_done clientChan w = Looping clientChan w"
| "HandleSSE_loop (Suc n) pick ctx_done clientChan w =
     (case recv zero_Event clientChan of
        Returned (event, ch) \<Rightarrow>
          if ctx_done \<and> \<not> pick n then Exited clientChan w
          else HandleSSE_loop n pick ctx_done ch (write_event w event)
      | Blocked \<Rightarrow> if ctx_done then Exited clientChan w else Waiting clientChan w
      | Panicked \<Rightarrow> Exited clientChan w)"

section \<open>Package models: the machine\<close>

text \<open>
  The fields of \<^verbatim>\<open>headscale.User\<close>, \<^verbatim>\<open>headscale.Node\<close> and \<^verbatim>\<open>models.Machine\<close> that
  the poller reads. A nil pointer is \<open>None\<close>.
\<close>

record User =
  user_Id :: uint64
  user_Name :: string

record Node =
  node_Id :: uint64
  node_User :: "User option"
  node_ForcedTags :: "string list"
  node_ApprovedRoutes :: "string list"
  node_AvailableRoutes :: "string list"

record Machine =
  m_Node :: "Node option"
  m_Online :: bool

definition Machine_ID :: "Machine \<Rightarrow> uint64" where
  "Machine_ID m = (case m_Node m of Some n \<Rightarrow> node_Id n | None \<Rightarrow> 0)"

definition Machine_User :: "Machine \<Rightarrow> string" where
  "Machine_User m =
     (case m_Node m of
        Some n \<Rightarrow> (case node_User n of Some u \<Rightarrow> user_Name u | None \<Rightarrow> ''-'')
      | None \<Rightarrow> ''-'')"

definition Machine_Tags :: "Machine \<Rightarrow> string list" where
  "Machine_Tags m =
     (case m_Node m of
        Some n \<Rightarrow> if length (node_ForcedTags n) > 0 then node_ForcedTags n else []
      | None \<Rightarrow> [])"

definition is_exit_route :: "string \<Rightarrow> bool" where
  "is_exit_route route \<longleftrightarrow> route = ''0.0.0.0/0'' \<or> route = ''::/0''"

definition ApprovedSubnets :: "Machine \<Rightarrow> string list" where
  "ApprovedSubnets m =
     (case m_Node m of
        None \<Rightarrow> []
      | Some n \<Rightarrow> filter (\<lambda>route. \<not> is_exit_route route) (node_ApprovedRoutes n))"

definition ExitNodeApproved :: "Machine \<Rightarrow> bool" where
  "ExitNodeApproved m =
     (case m_Node m of
        None \<Rightarrow> False
      | Some n \<Rightarrow>
          if \<not> list_ex is_exit_route (node_ApprovedRoutes n) then False
          else list_ex is_exit_route (node_AvailableRoutes n))"

definition ExitNodeAdvertised :: "Machine \<Rightarrow> bool" where
  "ExitNodeAdvertised m =
     (case m_Node m of
        None \<Rightarrow> False
      | Some n \<Rightarrow>
          list_ex (\<lambda>route. is_exit_route route \<and> \<not> List.member (node_ApprovedRoutes n) route)
            (node_AvailableRoutes n))"

definition ExitNodeStatus :: "Machine \<Rightarrow> string" where
  "ExitNodeStatus m =
     (if ExitNodeApproved m then ''Allowed''
      else if ExitNodeAdvertised m then ''Awaiting approval''
      else [])"

section \<open>Package handlers: the poller\<close>

datatype error = Error string

text \<open>
  What the collaborators answer during one tick: \<^verbatim>\<open>FetchMachines\<close>, \<^verbatim>\<open>ListUsers\<close> and
  \<^verbatim>\<open>ExecuteTemplate\<close> (by template name and data).
\<close>

datatype tvalue = VMachines "Machine list" | VUsers "User list"

record collaborators =
  FetchMachines :: "error + Machine list"
  ListUsers :: "error + User list"
  ExecuteTemplate :: "string \<Rightarrow> (string, tvalue) gomap \<Rightarrow> error + string"

text \<open>
  The steps a tick takes, recorded in the order taken: the calls to the collaborators
  and the runs of the two detectors.
\<close>

datatype step =
  CallFetchMachines | CallListUsers | CallExecuteTemplate string |
  RunDetectMachines | RunDetectUsers

text \<open>
  The poller: the broker it broadcasts to, the two maps that \<^verbatim>\<open>StartPolling\<close> keeps
  in local variables, and the steps taken so far.
\<close>

record poller =
  broker :: Broker
  lastMachineStates :: "(uint64, MachineState) gomap"
  lastUserStates :: "(uint64, UserState) gomap"
  steps :: "step list"

definition took :: "step \<Rightarrow> poller \<Rightarrow> poller" where
  "took s p = p\<lparr>steps := steps p @ [s]\<rparr>"

definition broadcastMachinesTableUpdate ::
  "collaborators \<Rightarrow> poller \<Rightarrow> Machine list \<Rightarrow> User list \<Rightarrow> poller outcome" where
  "broadcastMachinesTableUpdate env p machines users =
     (let data = [(''Machines'', VMachines machines), (''Users'', VUsers users)];
          p1 = took (CallExecuteTemplate ''machines-table'') p
      in case ExecuteTemplate env ''machines-table'' data of
           Inl err \<Rightarrow> Returned p1
         | Inr html \<Rightarrow>
             and_then (Broadcast (broker p1) \<lparr>ev_Type = ''machinesTable'', ev_HTML = html\<rparr>)
               (\<lambda>b. Returned (p1\<lparr>broker := b\<rparr>)))"

definition broadcastUsersTableUpdate ::
  "collaborators \<Rightarrow> poller \<Rightarrow> User list \<Rightarrow> poller outcome" where
  \<open>broadcastUsersTableUpdate env p users =
     (let data = [(''Users'', VUsers users)];
          p1 = took (CallExecuteTemplate ''users-table'') p
      in case ExecuteTemplate env ''users-table'' data of
           Inl err \<Rightarrow> Returned p1
         | Inr body \<Rightarrow>
             (let html = ''<div id="users-table" hx-swap-oob="true">'' @ body @ ''</div>''
              in and_then (Broadcast (broker p1) \<lparr>ev_Type = ''usersTable'', ev_HTML = html\<rparr>)
                   (\<lambda>b. Returned (p1\<lparr>broker := b\<rparr>))))\<close>

definition machine_state :: "Machine \<Rightarrow> MachineState" where
  "machine_state m =
     \<lparr>ms_ID = Machine_ID m,
      ms_Online = m_Online m,
      ms_ApprovedRoutes = FromSlice (ApprovedSubnets m),
      ms_ExitNodeEnabled = (ExitNodeStatus m = ''Approved''),
      ms_Tags = FromSlice (Machine_Tags m)\<rparr>"

definition machine_states :: "Machine list \<Rightarrow> (uint64, MachineState) gomap" where
  "machine_states machines =
     fold (\<lambda>m currentStates. AList.update (Machine_ID m) (machine_state m) currentStates)
       machines []"

text \<open>
  \<^verbatim>\<open>pollMachineChanges\<close> returns the new state map; here it is stored in the poller,
  as the assignment in \<^verbatim>\<open>StartPolling\<close> does with the returned value.
\<close>

definition pollMachineChanges ::
  "collaborators \<Rightarrow> poller \<Rightarrow> Machine list \<Rightarrow> User list \<Rightarrow> poller outcome" where
  "pollMachineChanges env p machines users =
     (let currentStates = machine_states machines;
          p1 = took RunDetectMachines p
      in and_then (detectMachineChanges currentStates (lastMachineStates p1))
           (\<lambda>changed.
              and_then (if changed then broadcastMachinesTableUpdate env p1 machines users
                        else Returned p1)
                (\<lambda>p2. Returned (p2\<lparr>lastMachineStates := currentStates\<rparr>))))"

definition count_of :: "(string, int) gomap \<Rightarrow> string \<Rightarrow> int" where
  "count_of counts name = (case map_of counts name of Some n \<Rightarrow> n | None \<Rightarrow> 0)"

definition countMachinesPerUser :: "Machine list \<Rightarrow> (string, int) gomap" where
  "countMachinesPerUser machines =
     fold (\<lambda>m counts. AList.update (Machine_User m) (count_of counts (Machine_User m) + 1) counts)
       machines []"

definition user_states :: "User list \<Rightarrow> (string, int) gomap \<Rightarrow> (uint64, UserState) gomap" where
  "user_states users machineCounts =
     fold (\<lambda>user currentStates.
             AList.update (user_Id user)
               \<lparr>us_ID = user_Id user, us_Name = user_Name user,
                us_MachineCount = count_of machineCounts (user_Name user)\<rparr>
               currentStates)
       users []"

definition pollUserChanges ::
  "collaborators \<Rightarrow> poller \<Rightarrow> User list \<Rightarrow> (string, int) gomap \<Rightarrow> poller outcome" where
  "pollUserChanges env p users machineCounts =
     (let currentStates = user_states users machineCounts;
          p1 = took RunDetectUsers p
      in and_then (if detectUserChanges currentStates (lastUserStates p1)
                   then broadcastUsersTableUpdate env p1 users
                   else Returned p1)
           (\<lambda>p2. Returned (p2\<lparr>lastUserStates := currentStates\<rparr>)))"

text \<open>The body of the \<^verbatim>\<open>case <-ticker.C\<close> branch of \<^verbatim>\<open>StartPolling\<close>: one tick.\<close>

definition StartPolling_tick :: "collaborators \<Rightarrow> poller \<Rightarrow> poller outcome" where
  "StartPolling_tick env p =
     (let clientCount = ClientCount (broker p)
      in if clientCount = 0 then Returned p
         else
           (let p1 = took CallFetchMachines p
            in case FetchMachines env of
                 Inl err \<Rightarrow> Returned p1
               | Inr machines \<Rightarrow>
                   (let p2 = took CallListUsers p1
                    in case ListUsers env of
                         Inl err \<Rightarrow> Returned p2
                       | Inr users \<Rightarrow>
                           (let machineCounts = countMachinesPerUser machines
                            in and_then (pollMachineChanges env p2 machines users)
                                 (\<lambda>p3. pollUserChanges env p3 users machineCounts)))))"

section \<open>Properties of package sets\<close>

lemma wf_map_Add: "wf_map s \<Longrightarrow> wf_map (Add t s)"
  by (simp add: wf_map_def Add_def distinct_update)

lemma keys_Add: "keys (Add t s) = insert t (keys s)"
  by (simp add: keys_def Add_def dom_update)

lemma fold_Add: "wf_map s \<Longrightarrow> wf_map (fold Add xs s) \<and> keys (fold Add xs s) = set xs \<union> keys s"
  by (induction xs arbitrary: s) (auto simp: wf_map_Add keys_Add)

lemma wf_map_FromSlice: "wf_map (FromSlice xs)"
  using fold_Add [of "[]" xs] by (simp add: FromSlice_def wf_map_def)

lemma keys_FromSlice: "keys (FromSlice xs) = set xs"
  using fold_Add [of "[]" xs] by (simp add: FromSlice_def wf_map_def keys_def)

lemma map_of_None_keys: "map_of m k = None \<longleftrightarrow> k \<notin> keys m"
  by (simp add: keys_def map_of_eq_None_iff)

lemma Equals_loop_iff: "Equals_loop xs s \<longleftrightarrow> set xs \<subseteq> keys s"
  by (induction xs) (auto simp: map_of_None_keys)

lemma length_wf_map: "wf_map m \<Longrightarrow> length m = card (keys m)"
proof -
  assume "wf_map m"
  then have "card (set (map fst m)) = length (map fst m)"
    unfolding wf_map_def by (rule distinct_card)
  then show ?thesis by (simp add: keys_def)
qed

lemma Equals_iff:
  assumes "wf_map s" and "wf_map t"
  shows "Equals s t \<longleftrightarrow> keys s = keys t"
proof
  assume "Equals s t"
  then have len: "length t = length s" and sub: "keys t \<subseteq> keys s"
    by (auto simp: Equals_def Len_def Iter_def Equals_loop_iff keys_def split: if_splits)
  have "card (keys t) = card (keys s)"
    using len assms by (simp add: length_wf_map)
  moreover have "finite (keys s)" by (simp add: keys_def)
  ultimately show "keys s = keys t"
    using sub by (metis card_subset_eq)
next
  assume eq: "keys s = keys t"
  then have "length t = length s"
    using assms by (simp add: length_wf_map)
  then show "Equals s t"
    using eq by (simp add: Equals_def Len_def Iter_def Equals_loop_iff keys_def)
qed

section \<open>Properties of the change detectors\<close>

lemma missing_key_iff: "missing_key a b \<longleftrightarrow> \<not> keys a \<subseteq> keys b"
  by (induction a b rule: missing_key.induct) (simp_all add: map_of_None_keys, simp_all add: keys_def)

lemma changed_existing_iff:
  assumes "keys current \<subseteq> keys previous"
    and "\<forall>(i, s) \<in> set current. wf_map (ms_ApprovedRoutes s) \<and> wf_map (ms_Tags s)"
    and "\<forall>(i, s) \<in> set previous. wf_map (ms_ApprovedRoutes s) \<and> wf_map (ms_Tags s)"
  shows "changed_existing current previous =
    Returned (\<exists>(i, c) \<in> set current. \<exists>p. map_of previous i = Some p \<and> \<not> same_machine c p)"
  using assms
proof (induction current)
  case Nil
  then show ?case by simp
next
  case (Cons a current)
  obtain i c where a: "a = (i, c)" by (cases a)
  from Cons.prems a have "i \<in> keys previous" by (simp add: keys_def)
  then obtain p where p: "map_of previous i = Some p"
    by (metis map_of_None_keys not_Some_eq)
  then have pin: "(i, p) \<in> set previous" by (rule map_of_SomeD)
  have wfc: "wf_map (ms_ApprovedRoutes c)" "wf_map (ms_Tags c)"
    using Cons.prems(2) a by auto
  have wfp: "wf_map (ms_ApprovedRoutes p)" "wf_map (ms_Tags p)"
    using Cons.prems(3) pin by auto
  have IH: "changed_existing current previous =
    Returned (\<exists>(i, c) \<in> set current. \<exists>p. map_of previous i = Some p \<and> \<not> same_machine c p)"
    using Cons.IH Cons.prems by (simp add: keys_def)
  show ?case
    using a p IH by (auto simp: same_machine_def Equals_iff wfc wfp)
qed

lemma detectMachineChanges_iff:
  assumes "wf_machines current" and "wf_machines previous"
  shows "detectMachineChanges current previous =
    Returned (\<not> same_entries same_machine current previous)"
proof (cases "keys current = keys previous")
  case False
  then show ?thesis
    by (auto simp: detectMachineChanges_def missing_key_iff same_entries_def)
next
  case True
  have wfp: "distinct (map fst previous)" using assms(2) by (simp add: wf_machines_def wf_map_def)
  have "changed_existing current previous =
    Returned (\<exists>(i, c) \<in> set current. \<exists>p. map_of previous i = Some p \<and> \<not> same_machine c p)"
    using True assms by (intro changed_existing_iff) (auto simp: wf_machines_def)
  also have "(\<exists>(i, c) \<in> set current. \<exists>p. map_of previous i = Some p \<and> \<not> same_machine c p)
     \<longleftrightarrow> \<not> same_entries same_machine current previous"
  proof -
    have "\<And>i c. (\<exists>p. map_of previous i = Some p \<and> \<not> same_machine c p) \<longleftrightarrow>
        (\<exists>(j, p) \<in> set previous. i = j \<and> \<not> same_machine c p)"
      using wfp by auto
    then show ?thesis
      using True by (simp add: same_entries_def case_prod_beta)
  qed
  finally show ?thesis
    using True by (simp add: detectMachineChanges_def missing_key_iff)
qed


lemma detectMachineChanges_total: "detectMachineChanges current previous \<noteq> Panicked"
proof -
  have "keys c \<subseteq> keys previous \<Longrightarrow> changed_existing c previous \<noteq> Panicked" for c
  proof (induction c)
    case Nil
    then show ?case by simp
  next
    case (Cons a c)
    obtain i s where a: "a = (i, s)" by (cases a)
    from Cons.prems a have "i \<in> keys previous" by (simp add: keys_def)
    then obtain p where "map_of previous i = Some p"
      by (metis map_of_None_keys not_Some_eq)
    moreover have "changed_existing c previous \<noteq> Panicked"
      using Cons by (simp add: keys_def)
    ultimately show ?case using a by simp
  qed
  then show ?thesis
    by (simp add: detectMachineChanges_def missing_key_iff)
qed

lemma same_entries_refl:
  assumes "wf_map S" and "\<And>x. R x x"
  shows "same_entries R S S"
proof -
  have "c = p" if "(i, c) \<in> set S" "(i, p) \<in> set S" for i c p
    using assms(1) that unfolding wf_map_def by (meson eq_key_imp_eq_value)
  then show ?thesis
    using assms(2) by (auto simp: same_entries_def)
qed

lemma same_entriesD:
  "same_entries R a b \<Longrightarrow> (i, c) \<in> set a \<Longrightarrow> (i, p) \<in> set b \<Longrightarrow> R c p"
  by (fastforce simp: same_entries_def)

lemma Equals_refl: "Equals s s"
  by (simp add: Equals_def Len_def Iter_def Equals_loop_iff keys_def)

lemma changed_existing_subset:
  assumes "wf_map previous" and "set current \<subseteq> set previous"
  shows "changed_existing current previous = Returned False"
  using assms(2)
proof (induction current)
  case Nil
  then show ?case by simp
next
  case (Cons a current)
  obtain i c where a: "a = (i, c)" by (cases a)
  have "map_of previous i = Some c"
    using assms(1) Cons.prems a by (simp add: wf_map_def)
  then show ?case
    using Cons a by (simp add: Equals_refl)
qed

lemma detectMachineChanges_refl: "wf_map S \<Longrightarrow> detectMachineChanges S S = Returned False"
  by (simp add: detectMachineChanges_def missing_key_iff changed_existing_subset)

lemma changed_user_iff:
  "changed_user current previous \<longleftrightarrow>
     \<not> keys current \<subseteq> keys previous \<or>
     (\<exists>(i, c) \<in> set current. \<exists>p. map_of previous i = Some p \<and> \<not> same_user c p)"
proof (induction current)
  case Nil
  then show ?case by (simp add: keys_def)
next
  case (Cons a current)
  obtain i c where a: "a = (i, c)" by (cases a)
  show ?case
  proof (cases "map_of previous i")
    case None
    then have "i \<notin> keys previous" by (simp add: map_of_None_keys)
    then show ?thesis using a None by (simp add: keys_def)
  next
    case (Some p)
    then have "i \<in> keys previous" by (metis map_of_None_keys option.distinct(1))
    then show ?thesis
      using a Some Cons.IH by (auto simp: keys_def same_user_def)
  qed
qed

lemma detectUserChanges_iff:
  assumes "wf_map current" and "wf_map previous"
  shows "detectUserChanges current previous \<longleftrightarrow> \<not> same_entries same_user current previous"
proof (cases "length current = length previous")
  case False
  then have "keys current \<noteq> keys previous"
    using assms by (auto simp: length_wf_map)
  then show ?thesis
    using False by (simp add: detectUserChanges_def same_entries_def)
next
  case True
  have wfp: "distinct (map fst previous)" using assms(2) by (simp add: wf_map_def)
  have card: "card (keys current) = card (keys previous)"
    using True assms by (simp add: length_wf_map)
  have sub: "keys current \<subseteq> keys previous \<longleftrightarrow> keys current = keys previous"
    using card by (metis card_subset_eq finite_imageI finite_set keys_def subset_refl)
  have ex: "\<And>i c. (\<exists>p. map_of previous i = Some p \<and> \<not> same_user c p) \<longleftrightarrow>
        (\<exists>(j, p) \<in> set previous. i = j \<and> \<not> same_user c p)"
    using wfp by auto
  show ?thesis
    using True by (auto simp: detectUserChanges_def changed_user_iff sub ex same_entries_def case_prod_beta)
qed


text \<open>
  C5. The change detectors are reflexive: on a snapshot map compared with itself both
  return false; and they return false on two separately built maps that hold the same
  identities with the same tracked values, whatever the order of the maps and of the
  sets in them, a set built from a slice holding the same values as one built from a
  reordering of the slice or from the slice with repetitions.
\<close>

theorem detectors_reflexive:
  assumes "wf_map S" and "wf_map U"
    and "wf_machines current" and "wf_machines previous"
    and "same_entries same_machine current previous"
    and "wf_map ucurrent" and "wf_map uprevious"
    and "same_entries same_user ucurrent uprevious"
    and "set xs = set ys"
  shows "detectMachineChanges S S = Returned False \<and>
         detectUserChanges U U = False \<and>
         detectMachineChanges current previous = Returned False \<and>
         detectUserChanges ucurrent uprevious = False \<and>
         Equals (FromSlice xs) (FromSlice ys) \<and>
         keys (FromSlice xs) = keys (FromSlice ys)"
proof -
  have "same_entries same_user U U"
    using assms(2) by (rule same_entries_refl) (simp add: same_user_def)
  then have "detectUserChanges U U = False"
    using assms(2) by (simp add: detectUserChanges_iff)
  moreover have "Equals (FromSlice xs) (FromSlice ys)"
    using assms(9) by (simp add: Equals_iff wf_map_FromSlice keys_FromSlice)
  ultimately show ?thesis
    using assms by (simp add: detectMachineChanges_refl detectMachineChanges_iff
        detectUserChanges_iff keys_FromSlice)
qed

theorem detectors_reflexive_witness:
  "detectMachineChanges
     [(1, \<lparr>ms_ID = 1, ms_Online = True, ms_ApprovedRoutes = FromSlice [''10.0.0.0/24'', ''10.1.0.0/24''],
           ms_ExitNodeEnabled = False, ms_Tags = FromSlice [''tag:a'']\<rparr>),
      (2, \<lparr>ms_ID = 2, ms_Online = False, ms_ApprovedRoutes = FromSlice [],
           ms_ExitNodeEnabled = False, ms_Tags = FromSlice []\<rparr>)]
     [(2, \<lparr>ms_ID = 2, ms_Online = False, ms_ApprovedRoutes = FromSlice [],
           ms_ExitNodeEnabled = False, ms_Tags = FromSlice []\<rparr>),
      (1, \<lparr>ms_ID = 1, ms_Online = True,
           ms_ApprovedRoutes = FromSlice [''10.1.0.0/24'', ''10.0.0.0/24'', ''10.1.0.0/24''],
           ms_ExitNodeEnabled = False, ms_Tags = FromSlice [''tag:a'', ''tag:a'']\<rparr>)]
     = Returned False \<and>
   detectUserChanges
     [(1, \<lparr>us_ID = 1, us_Name = ''a'', us_MachineCount = 2\<rparr>), (7, \<lparr>us_ID = 7, us_Name = ''b'', us_MachineCount = 0\<rparr>)]
     [(7, \<lparr>us_ID = 7, us_Name = ''b'', us_MachineCount = 0\<rparr>), (1, \<lparr>us_ID = 1, us_Name = ''a'', us_MachineCount = 2\<rparr>)]
     = False \<and>
   Equals (FromSlice [''x'', ''y'']) (FromSlice [''y'', ''x'', ''y''])"
proof -
  let ?c = "[(1::uint64, \<lparr>ms_ID = 1, ms_Online = True, ms_ApprovedRoutes = FromSlice [''10.0.0.0/24'', ''10.1.0.0/24''],
           ms_ExitNodeEnabled = False, ms_Tags = FromSlice [''tag:a'']\<rparr>),
      (2, \<lparr>ms_ID = 2, ms_Online = False, ms_ApprovedRoutes = FromSlice [],
           ms_ExitNodeEnabled = False, ms_Tags = FromSlice []\<rparr>)]"
  let ?p = "[(2::uint64, \<lparr>ms_ID = 2, ms_Online = False, ms_ApprovedRoutes = FromSlice [],
           ms_ExitNodeEnabled = False, ms_Tags = FromSlice []\<rparr>),
      (1, \<lparr>ms_ID = 1, ms_Online = True,
           ms_ApprovedRoutes = FromSlice [''10.1.0.0/24'', ''10.0.0.0/24'', ''10.1.0.0/24''],
           ms_ExitNodeEnabled = False, ms_Tags = FromSlice [''tag:a'', ''tag:a'']\<rparr>)]"
  let ?uc = "[(1::uint64, \<lparr>us_ID = 1, us_Name = ''a'', us_MachineCount = 2\<rparr>), (7, \<lparr>us_ID = 7, us_Name = ''b'', us_MachineCount = 0\<rparr>)]"
  let ?up = "[(7::uint64, \<lparr>us_ID = 7, us_Name = ''b'', us_MachineCount = 0\<rparr>), (1, \<lparr>us_ID = 1, us_Name = ''a'', us_MachineCount = 2\<rparr>)]"
  have h1: "wf_machines ?c" and h2: "wf_machines ?p"
    by (simp_all add: wf_machines_def wf_map_def wf_map_FromSlice [unfolded wf_map_def])
  have h3: "same_entries same_machine ?c ?p"
    by (auto simp: same_entries_def same_machine_def keys_FromSlice) (auto simp: keys_def)
  have h4: "wf_map ?uc" and h5: "wf_map ?up"
    by (simp_all add: wf_map_def)
  have h6: "same_entries same_user ?uc ?up"
    by (auto simp: same_entries_def same_user_def keys_def)
  have h7: "set [''x'', ''y''] = set [''y'', ''x'', ''y'']"
    by auto
  have h0: "wf_map ?c"
    using h1 by (simp add: wf_machines_def)
  show ?thesis
    using detectors_reflexive [OF h0 h4 h1 h2 h3 h4 h5 h6 h7] by simp
qed

text \<open>
  C6. The change detectors see every tracked difference: when the two snapshot maps do
  not hold the same identities (an entity was added, removed, or one was added while
  another was removed), or some identity that both hold differs in a tracked field
  (for a machine the online flag, the set of approved routes, the exit node flag or the
  set of tags; for a user the name or the machine count), the detector returns true.
\<close>

theorem detectors_sensitive:
  assumes "wf_machines current" and "wf_machines previous"
    and "wf_map ucurrent" and "wf_map uprevious"
  shows "(keys current \<noteq> keys previous \<longrightarrow>
            detectMachineChanges current previous = Returned True) \<and>
         (\<forall>i c p. map_of current i = Some c \<and> map_of previous i = Some p \<and>
            (ms_Online c \<noteq> ms_Online p \<or>
             keys (ms_ApprovedRoutes c) \<noteq> keys (ms_ApprovedRoutes p) \<or>
             ms_ExitNodeEnabled c \<noteq> ms_ExitNodeEnabled p \<or>
             keys (ms_Tags c) \<noteq> keys (ms_Tags p)) \<longrightarrow>
            detectMachineChanges current previous = Returned True) \<and>
         (keys ucurrent \<noteq> keys uprevious \<longrightarrow> detectUserChanges ucurrent uprevious) \<and>
         (\<forall>i c p. map_of ucurrent i = Some c \<and> map_of uprevious i = Some p \<and>
            (us_Name c \<noteq> us_Name p \<or> us_MachineCount c \<noteq> us_MachineCount p) \<longrightarrow>
            detectUserChanges ucurrent uprevious)"
proof -
  have m: "\<not> same_entries same_machine current previous"
    if "map_of current i = Some c" "map_of previous i = Some p" "\<not> same_machine c p" for i c p
  proof -
    have "(i, c) \<in> set current" "(i, p) \<in> set previous"
      using that by (auto dest: map_of_SomeD)
    then show ?thesis
      using that(3) by (auto dest: same_entriesD)
  qed
  have u: "\<not> same_entries same_user ucurrent uprevious"
    if "map_of ucurrent i = Some c" "map_of uprevious i = Some p" "\<not> same_user c p" for i c p
  proof -
    have "(i, c) \<in> set ucurrent" "(i, p) \<in> set uprevious"
      using that by (auto dest: map_of_SomeD)
    then show ?thesis
      using that(3) by (auto dest: same_entriesD)
  qed
  have "detectMachineChanges current previous = Returned True"
    if "keys current \<noteq> keys previous"
    using that assms by (simp add: detectMachineChanges_iff same_entries_def)
  moreover have "detectMachineChanges current previous = Returned True"
    if "map_of current i = Some c" "map_of previous i = Some p" "\<not> same_machine c p" for i c p
    using m [OF that] assms by (simp add: detectMachineChanges_iff)
  moreover have "detectUserChanges ucurrent uprevious"
    if "keys ucurrent \<noteq> keys uprevious"
    using that assms by (simp add: detectUserChanges_iff same_entries_def)
  moreover have "detectUserChanges ucurrent uprevious"
    if "map_of ucurrent i = Some c" "map_of uprevious i = Some p" "\<not> same_user c p" for i c p
    using u [OF that] assms by (simp add: detectUserChanges_iff)
  ultimately show ?thesis
    unfolding same_machine_def same_user_def by blast
qed


theorem detectors_sensitive_witness:
  "detectMachineChanges
     [(1, \<lparr>ms_ID = 1, ms_Online = True, ms_ApprovedRoutes = FromSlice [''10.0.0.0/24''],
           ms_ExitNodeEnabled = False, ms_Tags = FromSlice []\<rparr>)]
     [(1, \<lparr>ms_ID = 1, ms_Online = False, ms_ApprovedRoutes = FromSlice [''10.0.0.0/24''],
           ms_ExitNodeEnabled = False, ms_Tags = FromSlice []\<rparr>)]
     = Returned True \<and>
   detectMachineChanges
     [(2, \<lparr>ms_ID = 2, ms_Online = True, ms_ApprovedRoutes = FromSlice [],
           ms_ExitNodeEnabled = False, ms_Tags = FromSlice []\<rparr>)]
     [(3, \<lparr>ms_ID = 3, ms_Online = True, ms_ApprovedRoutes = FromSlice [],
           ms_ExitNodeEnabled = False, ms_Tags = FromSlice []\<rparr>)]
     = Returned True \<and>
   detectUserChanges
     [(1, \<lparr>us_ID = 1, us_Name = ''a'', us_MachineCount = 2\<rparr>)]
     [(1, \<lparr>us_ID = 1, us_Name = ''a'', us_MachineCount = 3\<rparr>)] \<and>
   detectUserChanges
     [(1, \<lparr>us_ID = 1, us_Name = ''a'', us_MachineCount = 2\<rparr>), (3, \<lparr>us_ID = 3, us_Name = ''c'', us_MachineCount = 0\<rparr>)]
     [(1, \<lparr>us_ID = 1, us_Name = ''a'', us_MachineCount = 2\<rparr>), (2, \<lparr>us_ID = 2, us_Name = ''b'', us_MachineCount = 0\<rparr>)]"
proof -
  let ?on = "\<lparr>ms_ID = 1, ms_Online = True, ms_ApprovedRoutes = FromSlice [''10.0.0.0/24''],
           ms_ExitNodeEnabled = False, ms_Tags = FromSlice []\<rparr>"
  let ?off = "\<lparr>ms_ID = 1, ms_Online = False, ms_ApprovedRoutes = FromSlice [''10.0.0.0/24''],
           ms_ExitNodeEnabled = False, ms_Tags = FromSlice []\<rparr>"
  let ?m2 = "\<lparr>ms_ID = 2, ms_Online = True, ms_ApprovedRoutes = FromSlice [],
           ms_ExitNodeEnabled = False, ms_Tags = FromSlice []\<rparr>"
  let ?m3 = "\<lparr>ms_ID = 3, ms_Online = True, ms_ApprovedRoutes = FromSlice [],
           ms_ExitNodeEnabled = False, ms_Tags = FromSlice []\<rparr>"
  let ?a2 = "\<lparr>us_ID = 1, us_Name = ''a'', us_MachineCount = 2\<rparr>"
  let ?a3 = "\<lparr>us_ID = 1, us_Name = ''a'', us_MachineCount = 3\<rparr>"
  let ?b = "\<lparr>us_ID = 2, us_Name = ''b'', us_MachineCount = 0\<rparr>"
  let ?c = "\<lparr>us_ID = 3, us_Name = ''c'', us_MachineCount = 0\<rparr>"
  have m1: "wf_machines [(1, ?on)]" and m2: "wf_machines [(1, ?off)]"
    and m3: "wf_machines [(2, ?m2)]" and m4: "wf_machines [(3, ?m3)]"
    by (simp_all add: wf_machines_def wf_map_def wf_map_FromSlice [unfolded wf_map_def])
  have u1: "wf_map [(1::uint64, ?a2)]" and u2: "wf_map [(1::uint64, ?a3)]"
    and u3: "wf_map [(1::uint64, ?a2), (3, ?c)]" and u4: "wf_map [(1::uint64, ?a2), (2, ?b)]"
    by (simp_all add: wf_map_def)
  note A = detectors_sensitive [OF m1 m2 u1 u2]
  note B = detectors_sensitive [OF m3 m4 u3 u4]
  have "detectMachineChanges [(1, ?on)] [(1, ?off)] = Returned True"
    using A [THEN conjunct2, THEN conjunct1, rule_format, of 1 ?on ?off] by simp
  moreover have "detectMachineChanges [(2, ?m2)] [(3, ?m3)] = Returned True"
    using B [THEN conjunct1] by (simp add: keys_def)
  moreover have "detectUserChanges [(1, ?a2)] [(1, ?a3)]"
    using A [THEN conjunct2, THEN conjunct2, THEN conjunct2, rule_format, of 1 ?a2 ?a3] by simp
  moreover have "detectUserChanges [(1, ?a2), (3, ?c)] [(1, ?a2), (2, ?b)]"
  proof -
    have "(3::uint64) \<in> keys [(1, ?a2), (3, ?c)]" and "(3::uint64) \<notin> keys [(1, ?a2), (2, ?b)]"
      by (simp_all add: keys_def)
    then have "keys [(1::uint64, ?a2), (3, ?c)] \<noteq> keys [(1, ?a2), (2, ?b)]"
      by blast
    then show ?thesis
      using B [THEN conjunct2, THEN conjunct2, THEN conjunct1] by blast
  qed
  ultimately show ?thesis by simp
qed

section \<open>Properties of the broker\<close>

lemma try_send_open: "\<not> ch_closed ch \<Longrightarrow> try_send ch e = Returned (offered e ch)"
  by (simp add: try_send_def offered_def)

lemma offered_props [simp]:
  "ch_closed (offered e ch) = ch_closed ch" "ch_cap (offered e ch) = ch_cap ch"
  by (simp_all add: offered_def)

lemma offer_open:
  "h c = Some ch \<Longrightarrow> \<not> ch_closed ch \<Longrightarrow> offer h c e = Returned (h(c \<mapsto> offered e ch))"
  by (simp add: offer_def try_send_open and_then_def)

lemma fan_out_effect:
  assumes "distinct (map fst cs)"
    and "\<forall>c \<in> keys cs. \<exists>ch. h c = Some ch \<and> \<not> ch_closed ch"
  shows "fan_out cs e h =
     Returned (\<lambda>c. if c \<in> keys cs then map_option (offered e) (h c) else h c)"
  using assms
proof (induction cs arbitrary: h)
  case Nil
  then show ?case by (simp add: keys_def)
next
  case (Cons a cs)
  obtain c v where a: "a = (c, v)" by (cases a)
  from Cons.prems a obtain ch where ch: "h c = Some ch" "\<not> ch_closed ch"
    by (auto simp: keys_def)
  let ?h = "h(c \<mapsto> offered e ch)"
  have notin: "c \<notin> keys cs" using Cons.prems(1) a by (simp add: keys_def)
  have "\<forall>d \<in> keys cs. \<exists>ch. ?h d = Some ch \<and> \<not> ch_closed ch"
    using Cons.prems(2) a notin by (auto simp: keys_def)
  moreover have "distinct (map fst cs)" using Cons.prems(1) by simp
  ultimately have "fan_out cs e ?h =
     Returned (\<lambda>d. if d \<in> keys cs then map_option (offered e) (?h d) else ?h d)"
    by (rule Cons.IH [rotated])
  moreover have "(\<lambda>d. if d \<in> keys cs then map_option (offered e) (?h d) else ?h d) =
     (\<lambda>d. if d \<in> keys (a # cs) then map_option (offered e) (h d) else h d)"
    using a ch notin by (auto simp: keys_def fun_eq_iff)
  ultimately show ?case
    using a ch by (simp add: offer_open and_then_def)
qed

lemma close_all_effect:
  assumes "distinct (map fst cs)"
    and "\<forall>c \<in> keys cs. \<exists>ch. h c = Some ch \<and> \<not> ch_closed ch"
  shows "close_all cs h =
     Returned (\<lambda>c. if c \<in> keys cs then map_option (\<lambda>ch. ch\<lparr>ch_closed := True\<rparr>) (h c) else h c)"
  using assms
proof (induction cs arbitrary: h)
  case Nil
  then show ?case by (simp add: keys_def)
next
  case (Cons a cs)
  obtain c v where a: "a = (c, v)" by (cases a)
  from Cons.prems a obtain ch where ch: "h c = Some ch" "\<not> ch_closed ch"
    by (auto simp: keys_def)
  let ?h = "h(c \<mapsto> ch\<lparr>ch_closed := True\<rparr>)"
  have notin: "c \<notin> keys cs" using Cons.prems(1) a by (simp add: keys_def)
  have "\<forall>d \<in> keys cs. \<exists>ch. ?h d = Some ch \<and> \<not> ch_closed ch"
    using Cons.prems(2) a notin by (auto simp: keys_def)
  moreover have "distinct (map fst cs)" using Cons.prems(1) by simp
  ultimately have "close_all cs ?h =
     Returned (\<lambda>d. if d \<in> keys cs then map_option (\<lambda>ch. ch\<lparr>ch_closed := True\<rparr>) (?h d) else ?h d)"
    by (rule Cons.IH [rotated])
  moreover have "(\<lambda>d. if d \<in> keys cs then map_option (\<lambda>ch. ch\<lparr>ch_closed := True\<rparr>) (?h d) else ?h d) =
     (\<lambda>d. if d \<in> keys (a # cs) then map_option (\<lambda>ch. ch\<lparr>ch_closed := True\<rparr>) (h d) else h d)"
    using a ch notin by (auto simp: keys_def fun_eq_iff)
  ultimately show ?case
    using a ch by (simp add: close_ref_def close_chan_def and_then_def)
qed

lemma broker_inv_registered:
  "broker_inv b \<Longrightarrow> c \<in> keys (clients b) \<Longrightarrow>
     \<exists>ch. chans b c = Some ch \<and> \<not> ch_closed ch \<and> ch_cap ch = 5"
  by (simp add: broker_inv_def)

lemma run_broadcast_effect:
  assumes "broker_inv b" and "ch_buf (broadcast b) = e # rest"
  shows "run_broadcast b =
     Returned (b\<lparr>broadcast := (broadcast b)\<lparr>ch_buf := rest\<rparr>,
                 chans := (\<lambda>c. if c \<in> keys (clients b) then map_option (offered e) (chans b c)
                                else chans b c)\<rparr>)"
proof -
  have "distinct (map fst (clients b))"
    using assms(1) by (simp add: broker_inv_def wf_map_def)
  moreover have "\<forall>c \<in> keys (clients b). \<exists>ch. chans b c = Some ch \<and> \<not> ch_closed ch"
    using assms(1) by (auto simp: broker_inv_def)
  ultimately have "fan_out (clients b) e (chans b) =
     Returned (\<lambda>c. if c \<in> keys (clients b) then map_option (offered e) (chans b c) else chans b c)"
    by (rule fan_out_effect)
  then show ?thesis
    using assms(2) by (simp add: run_broadcast_def recv_def and_then_def)
qed

text \<open>The invariant holds of a new broker and every operation keeps it.\<close>

lemma broker_inv_NewBroker: "broker_inv NewBroker"
  by (simp add: broker_inv_def NewBroker_def wf_map_def keys_def make_chan_def)

lemma broker_inv_Subscribe:
  assumes "broker_inv b" and "Subscribe b = Returned (b', c)"
  shows "broker_inv b'"
proof -
  have fresh: "chans b (next_ref b) = None"
    using assms(1) by (auto simp: broker_inv_def)
  have b': "b' = run_register (b\<lparr>chans := (chans b)(next_ref b \<mapsto> make_chan 5),
                                  next_ref := Suc (next_ref b)\<rparr>) (next_ref b)"
    using assms(2) by (auto simp: Subscribe_def Let_def split: if_splits)
  have "wf_map (clients b')"
    using assms(1) by (simp add: b' run_register_def broker_inv_def wf_map_def distinct_update)
  moreover have "\<forall>d \<in> keys (clients b'). \<exists>ch. chans b' d = Some ch \<and> \<not> ch_closed ch \<and> ch_cap ch = 5"
    using assms(1) by (auto simp: b' run_register_def broker_inv_def keys_def dom_update make_chan_def)
  moreover have "\<forall>d. chans b' d \<noteq> None \<longrightarrow> d < next_ref b'"
    using assms(1) by (auto simp: b' run_register_def broker_inv_def less_Suc_eq)
  ultimately show ?thesis
    using assms(1) by (simp add: broker_inv_def b' run_register_def)
qed




lemma broker_inv_Broadcast:
  assumes "broker_inv b" and "Broadcast b e = Returned b'"
  shows "broker_inv b'"
  using assms
  by (auto simp: Broadcast_def try_send_def and_then_def broker_inv_def split: if_splits)

lemma broker_inv_Close:
  assumes "broker_inv b" and "Close b = Returned b'"
  shows "broker_inv b'"
  using assms by (auto simp: Close_def broker_inv_def split: if_splits)

lemma broker_inv_run_broadcast:
  assumes "broker_inv b" and "run_broadcast b = Returned b'"
  shows "broker_inv b'"
proof (cases "ch_buf (broadcast b)")
  case Nil
  then show ?thesis
    using assms by (simp add: run_broadcast_def recv_def and_then_def broker_inv_def)
next
  case (Cons e rest)
  let ?h = "\<lambda>c. if c \<in> keys (clients b) then map_option (offered e) (chans b c) else chans b c"
  have b': "b' = b\<lparr>broadcast := (broadcast b)\<lparr>ch_buf := rest\<rparr>, chans := ?h\<rparr>"
    using assms Cons by (simp add: run_broadcast_effect)
  have "\<exists>ch. ?h c = Some ch \<and> \<not> ch_closed ch \<and> ch_cap ch = 5" if "c \<in> keys (clients b)" for c
    using broker_inv_registered [OF assms(1) that] that by auto
  moreover have "c < next_ref b" if "?h c \<noteq> None" for c
    using that assms(1) by (auto simp: broker_inv_def split: if_splits)
  ultimately show ?thesis
    using assms(1) unfolding b' broker_inv_def by simp
qed

lemma run_done_effect:
  assumes "broker_inv b" and "done_closed b"
  shows "run_done b =
     Returned (b\<lparr>clients := [],
                 chans := (\<lambda>c. if c \<in> keys (clients b)
                                then map_option (\<lambda>ch. ch\<lparr>ch_closed := True\<rparr>) (chans b c)
                                else chans b c),
                 running := False\<rparr>)"
proof -
  have "distinct (map fst (clients b))"
    using assms(1) by (simp add: broker_inv_def wf_map_def)
  moreover have "\<forall>c \<in> keys (clients b). \<exists>ch. chans b c = Some ch \<and> \<not> ch_closed ch"
    using assms(1) by (auto simp: broker_inv_def)
  ultimately have "close_all (clients b) (chans b) =
     Returned (\<lambda>c. if c \<in> keys (clients b)
                    then map_option (\<lambda>ch. ch\<lparr>ch_closed := True\<rparr>) (chans b c) else chans b c)"
    by (rule close_all_effect)
  then show ?thesis
    using assms(2) by (simp add: run_done_def and_then_def)
qed

lemma broker_inv_run_done:
  assumes "broker_inv b" and "run_done b = Returned b'"
  shows "broker_inv b'"
proof -
  have "done_closed b" using assms(2) by (simp add: run_done_def split: if_splits)
  then show ?thesis
    using assms
    by (auto simp: run_done_effect broker_inv_def wf_map_def keys_def split: if_splits)
qed

section \<open>Fan-out\<close>

text \<open>
  C1. When the event loop takes an event \<open>e\<close> from the intake, every queue registered
  at that moment is offered \<open>e\<close> exactly once, whatever the number of registered queues
  and the order in which the loop visits them: the queue is left as one non-blocking
  send of \<open>e\<close> leaves it (\<open>e\<close> appended once if the queue has room, the queue unchanged
  if it is full). The registry is unchanged and no other channel is touched.
\<close>

theorem broadcast_offered_once:
  assumes "broker_inv b" and "ch_buf (broadcast b) = e # rest"
  shows "\<exists>b'. run_broadcast b = Returned b' \<and> clients b' = clients b \<and>
     (\<forall>c \<in> keys (clients b). \<exists>ch ch'.
         chans b c = Some ch \<and> try_send ch e = Returned ch' \<and> chans b' c = Some ch' \<and>
         ch_buf ch' = (if length (ch_buf ch) < 5 then ch_buf ch @ [e] else ch_buf ch)) \<and>
     (\<forall>c. c \<notin> keys (clients b) \<longrightarrow> chans b' c = chans b c)"
proof -
  let ?h = "\<lambda>c. if c \<in> keys (clients b) then map_option (offered e) (chans b c) else chans b c"
  let ?b = "b\<lparr>broadcast := (broadcast b)\<lparr>ch_buf := rest\<rparr>, chans := ?h\<rparr>"
  have run: "run_broadcast b = Returned ?b"
    using assms by (rule run_broadcast_effect)
  have "\<exists>ch ch'. chans b c = Some ch \<and> try_send ch e = Returned ch' \<and> chans ?b c = Some ch' \<and>
         ch_buf ch' = (if length (ch_buf ch) < 5 then ch_buf ch @ [e] else ch_buf ch)"
    if cin: "c \<in> keys (clients b)" for c
  proof -
    obtain ch where ch: "chans b c = Some ch" "\<not> ch_closed ch" "ch_cap ch = 5"
      using broker_inv_registered [OF assms(1) cin] by blast
    then have "try_send ch e = Returned (offered e ch)"
      by (simp add: try_send_open)
    moreover have "chans ?b c = Some (offered e ch)"
      using cin ch by simp
    moreover have "ch_buf (offered e ch) = (if length (ch_buf ch) < 5 then ch_buf ch @ [e] else ch_buf ch)"
      using ch by (simp add: offered_def)
    ultimately show ?thesis using ch by blast
  qed
  moreover have "clients ?b = clients b" by simp
  moreover have "\<forall>c. c \<notin> keys (clients b) \<longrightarrow> chans ?b c = chans b c" by simp
  ultimately show ?thesis using run by blast
qed

theorem broadcast_offered_once_witness:
  "broker_inv
     \<lparr>clients = [(0, True), (1, True)],
      broadcast = \<lparr>ch_buf = [\<lparr>ev_Type = ''x'', ev_HTML = ''p''\<rparr>], ch_cap = 10, ch_closed = False\<rparr>,
      done_closed = False, running = True,
      chans = [0 \<mapsto> make_chan 5, 1 \<mapsto> make_chan 5], next_ref = 2\<rparr> \<and>
   (\<exists>b'. run_broadcast
       \<lparr>clients = [(0, True), (1, True)],
        broadcast = \<lparr>ch_buf = [\<lparr>ev_Type = ''x'', ev_HTML = ''p''\<rparr>], ch_cap = 10, ch_closed = False\<rparr>,
        done_closed = False, running = True,
        chans = [0 \<mapsto> make_chan 5, 1 \<mapsto> make_chan 5], next_ref = 2\<rparr> = Returned b' \<and>
      chans b' 0 = Some \<lparr>ch_buf = [\<lparr>ev_Type = ''x'', ev_HTML = ''p''\<rparr>], ch_cap = 5, ch_closed = False\<rparr> \<and>
      chans b' 1 = Some \<lparr>ch_buf = [\<lparr>ev_Type = ''x'', ev_HTML = ''p''\<rparr>], ch_cap = 5, ch_closed = False\<rparr> \<and>
      chans b' 2 = None)"
proof -
  let ?e = "\<lparr>ev_Type = ''x'', ev_HTML = ''p''\<rparr>"
  let ?b = "\<lparr>clients = [(0, True), (1, True)],
      broadcast = \<lparr>ch_buf = [?e], ch_cap = 10, ch_closed = False\<rparr>,
      done_closed = False, running = True,
      chans = [0 \<mapsto> make_chan 5, 1 \<mapsto> make_chan 5], next_ref = 2\<rparr>"
  have h1: "broker_inv ?b"
    by (auto simp: broker_inv_def wf_map_def keys_def make_chan_def split: if_splits)
  have h2: "ch_buf (broadcast ?b) = ?e # []" by simp
  obtain b' where b': "run_broadcast ?b = Returned b'"
    and reg: "\<forall>c \<in> keys (clients ?b). \<exists>ch ch'.
         chans ?b c = Some ch \<and> try_send ch ?e = Returned ch' \<and> chans b' c = Some ch' \<and>
         ch_buf ch' = (if length (ch_buf ch) < 5 then ch_buf ch @ [?e] else ch_buf ch)"
    and unreg: "\<forall>c. c \<notin> keys (clients ?b) \<longrightarrow> chans b' c = chans ?b c"
    using broadcast_offered_once [OF h1 h2] by blast
  have k: "0 \<in> keys (clients ?b)" "1 \<in> keys (clients ?b)" "2 \<notin> keys (clients ?b)"
    by (simp_all add: keys_def)
  have "chans b' 0 = Some \<lparr>ch_buf = [?e], ch_cap = 5, ch_closed = False\<rparr>"
    using reg [rule_format, OF k(1)] by (auto simp: make_chan_def try_send_def)
  moreover have "chans b' 1 = Some \<lparr>ch_buf = [?e], ch_cap = 5, ch_closed = False\<rparr>"
    using reg [rule_format, OF k(2)] by (auto simp: make_chan_def try_send_def)
  moreover have "chans b' 2 = None"
    using unreg [rule_format, OF k(3)] by simp
  ultimately show ?thesis using h1 b' by blast
qed

text \<open>
  C2. \<^verbatim>\<open>Broadcast\<close> always returns, without error: with room in the intake (capacity
  10) the event is queued, with a full intake the event is dropped and nothing changes.
  When the loop fans an event out, a registered queue that is full (capacity 5) is left
  as it is and every registered queue with room receives the event.
\<close>

theorem broadcast_isolated:
  assumes "broker_inv b"
  shows "(\<exists>b'. Broadcast b e = Returned b') \<and>
     (10 \<le> length (ch_buf (broadcast b)) \<longrightarrow> Broadcast b e = Returned b) \<and>
     (length (ch_buf (broadcast b)) < 10 \<longrightarrow>
        Broadcast b e =
          Returned (b\<lparr>broadcast := (broadcast b)\<lparr>ch_buf := ch_buf (broadcast b) @ [e]\<rparr>\<rparr>)) \<and>
     (\<forall>ev rest. ch_buf (broadcast b) = ev # rest \<longrightarrow>
        (\<exists>b'. run_broadcast b = Returned b' \<and>
           (\<forall>c ch. c \<in> keys (clients b) \<and> chans b c = Some ch \<longrightarrow>
              (5 \<le> length (ch_buf ch) \<longrightarrow> chans b' c = Some ch) \<and>
              (length (ch_buf ch) < 5 \<longrightarrow>
                 chans b' c = Some (ch\<lparr>ch_buf := ch_buf ch @ [ev]\<rparr>)))))"
proof -
  have intake: "\<not> ch_closed (broadcast b)" "ch_cap (broadcast b) = 10"
    using assms by (simp_all add: broker_inv_def)
  have full: "Broadcast b e = Returned b" if "10 \<le> length (ch_buf (broadcast b))"
    using that intake by (simp add: Broadcast_def try_send_def and_then_def)
  have room: "Broadcast b e =
      Returned (b\<lparr>broadcast := (broadcast b)\<lparr>ch_buf := ch_buf (broadcast b) @ [e]\<rparr>\<rparr>)"
    if "length (ch_buf (broadcast b)) < 10"
    using that intake by (simp add: Broadcast_def try_send_def and_then_def)
  have returns: "\<exists>b'. Broadcast b e = Returned b'"
    using full room by (cases "length (ch_buf (broadcast b)) < 10") auto
  have fan: "\<exists>b'. run_broadcast b = Returned b' \<and>
           (\<forall>c ch. c \<in> keys (clients b) \<and> chans b c = Some ch \<longrightarrow>
              (5 \<le> length (ch_buf ch) \<longrightarrow> chans b' c = Some ch) \<and>
              (length (ch_buf ch) < 5 \<longrightarrow>
                 chans b' c = Some (ch\<lparr>ch_buf := ch_buf ch @ [ev]\<rparr>)))"
    if buf: "ch_buf (broadcast b) = ev # rest" for ev rest
  proof -
    let ?h = "\<lambda>c. if c \<in> keys (clients b) then map_option (offered ev) (chans b c) else chans b c"
    let ?b = "b\<lparr>broadcast := (broadcast b)\<lparr>ch_buf := rest\<rparr>, chans := ?h\<rparr>"
    have run: "run_broadcast b = Returned ?b"
      using assms buf by (rule run_broadcast_effect)
    have "(5 \<le> length (ch_buf ch) \<longrightarrow> chans ?b c = Some ch) \<and>
          (length (ch_buf ch) < 5 \<longrightarrow> chans ?b c = Some (ch\<lparr>ch_buf := ch_buf ch @ [ev]\<rparr>))"
      if cin: "c \<in> keys (clients b)" and ch: "chans b c = Some ch" for c ch
    proof -
      have "ch_cap ch = 5"
        using broker_inv_registered [OF assms cin] ch by auto
      then show ?thesis
        using cin ch by (simp add: offered_def)
    qed
    then show ?thesis using run by blast
  qed
  show ?thesis
    using returns full room fan by blast
qed


theorem broadcast_isolated_witness:
  "Broadcast NewBroker \<lparr>ev_Type = ''x'', ev_HTML = ''p''\<rparr> =
     Returned (NewBroker\<lparr>broadcast := \<lparr>ch_buf = [\<lparr>ev_Type = ''x'', ev_HTML = ''p''\<rparr>],
                                          ch_cap = 10, ch_closed = False\<rparr>\<rparr>) \<and>
   Broadcast
     \<lparr>clients = [(0, True), (1, True)],
      broadcast = \<lparr>ch_buf = \<lparr>ev_Type = ''a'', ev_HTML = ''1''\<rparr> # replicate 9 \<lparr>ev_Type = ''b'', ev_HTML = ''2''\<rparr>,
                   ch_cap = 10, ch_closed = False\<rparr>,
      done_closed = False, running = True,
      chans = [0 \<mapsto> \<lparr>ch_buf = replicate 5 \<lparr>ev_Type = ''b'', ev_HTML = ''2''\<rparr>, ch_cap = 5, ch_closed = False\<rparr>,
               1 \<mapsto> make_chan 5],
      next_ref = 2\<rparr>
     \<lparr>ev_Type = ''x'', ev_HTML = ''p''\<rparr> =
   Returned
     \<lparr>clients = [(0, True), (1, True)],
      broadcast = \<lparr>ch_buf = \<lparr>ev_Type = ''a'', ev_HTML = ''1''\<rparr> # replicate 9 \<lparr>ev_Type = ''b'', ev_HTML = ''2''\<rparr>,
                   ch_cap = 10, ch_closed = False\<rparr>,
      done_closed = False, running = True,
      chans = [0 \<mapsto> \<lparr>ch_buf = replicate 5 \<lparr>ev_Type = ''b'', ev_HTML = ''2''\<rparr>, ch_cap = 5, ch_closed = False\<rparr>,
               1 \<mapsto> make_chan 5],
      next_ref = 2\<rparr> \<and>
   (\<exists>b'. run_broadcast
       \<lparr>clients = [(0, True), (1, True)],
        broadcast = \<lparr>ch_buf = \<lparr>ev_Type = ''a'', ev_HTML = ''1''\<rparr> # replicate 9 \<lparr>ev_Type = ''b'', ev_HTML = ''2''\<rparr>,
                     ch_cap = 10, ch_closed = False\<rparr>,
        done_closed = False, running = True,
        chans = [0 \<mapsto> \<lparr>ch_buf = replicate 5 \<lparr>ev_Type = ''b'', ev_HTML = ''2''\<rparr>, ch_cap = 5, ch_closed = False\<rparr>,
                 1 \<mapsto> make_chan 5],
        next_ref = 2\<rparr> = Returned b' \<and>
      chans b' 0 = Some \<lparr>ch_buf = replicate 5 \<lparr>ev_Type = ''b'', ev_HTML = ''2''\<rparr>, ch_cap = 5, ch_closed = False\<rparr> \<and>
      chans b' 1 = Some \<lparr>ch_buf = [\<lparr>ev_Type = ''a'', ev_HTML = ''1''\<rparr>], ch_cap = 5, ch_closed = False\<rparr>)"
proof -
  let ?x = "\<lparr>ev_Type = ''x'', ev_HTML = ''p''\<rparr>"
  let ?a = "\<lparr>ev_Type = ''a'', ev_HTML = ''1''\<rparr>"
  let ?e = "\<lparr>ev_Type = ''b'', ev_HTML = ''2''\<rparr>"
  let ?full = "\<lparr>ch_buf = replicate 5 ?e, ch_cap = 5, ch_closed = False\<rparr>"
  let ?b = "\<lparr>clients = [(0, True), (1, True)],
      broadcast = \<lparr>ch_buf = ?a # replicate 9 ?e, ch_cap = 10, ch_closed = False\<rparr>,
      done_closed = False, running = True,
      chans = [0 \<mapsto> ?full, 1 \<mapsto> make_chan 5], next_ref = 2\<rparr>"
  have h: "broker_inv ?b"
    by (auto simp: broker_inv_def wf_map_def keys_def make_chan_def split: if_splits)
  note N = broadcast_isolated [OF broker_inv_NewBroker, of ?x]
  note B = broadcast_isolated [OF h, of ?x]
  have "length (ch_buf (broadcast NewBroker)) < 10"
    by (simp add: NewBroker_def make_chan_def)
  with N have 1: "Broadcast NewBroker ?x =
      Returned (NewBroker\<lparr>broadcast := (broadcast NewBroker)\<lparr>ch_buf := ch_buf (broadcast NewBroker) @ [?x]\<rparr>\<rparr>)"
    by blast
  have "10 \<le> length (ch_buf (broadcast ?b))" by simp
  with B have 2: "Broadcast ?b ?x = Returned ?b" by blast
  have "ch_buf (broadcast ?b) = ?a # replicate 9 ?e" by simp
  with B obtain b' where run: "run_broadcast ?b = Returned b'"
    and iso: "\<forall>c ch. c \<in> keys (clients ?b) \<and> chans ?b c = Some ch \<longrightarrow>
              (5 \<le> length (ch_buf ch) \<longrightarrow> chans b' c = Some ch) \<and>
              (length (ch_buf ch) < 5 \<longrightarrow> chans b' c = Some (ch\<lparr>ch_buf := ch_buf ch @ [?a]\<rparr>))"
    by blast
  have 3: "chans b' 0 = Some ?full"
    using iso [rule_format, of 0 ?full] by (simp add: keys_def)
  have 4: "chans b' 1 = Some \<lparr>ch_buf = [?a], ch_cap = 5, ch_closed = False\<rparr>"
    using iso [rule_format, of 1 "make_chan 5"] by (simp add: keys_def make_chan_def)
  show ?thesis
    using 1 2 3 4 run by (simp add: NewBroker_def make_chan_def)
qed




section \<open>Use after Close\<close>

text \<open>
  C3, as stated, fails: on a new broker that has been closed, with the loop having
  processed the close, a second \<^verbatim>\<open>Close\<close> panics, \<^verbatim>\<open>Subscribe\<close> and
  \<^verbatim>\<open>Unsubscribe\<close> never return, and \<^verbatim>\<open>Broadcast\<close> changes the broker.
\<close>

theorem use_after_close_counterexample:
  "and_then (Close NewBroker) run_done = Returned (NewBroker\<lparr>done_closed := True, running := False\<rparr>) \<and>
   Close (NewBroker\<lparr>done_closed := True, running := False\<rparr>) = Panicked \<and>
   Subscribe (NewBroker\<lparr>done_closed := True, running := False\<rparr>) = Blocked \<and>
   Unsubscribe (NewBroker\<lparr>done_closed := True, running := False\<rparr>) 0 = Blocked \<and>
   Broadcast (NewBroker\<lparr>done_closed := True, running := False\<rparr>) zero_Event \<noteq>
     Returned (NewBroker\<lparr>done_closed := True, running := False\<rparr>)"
  by (simp add: Close_def run_done_def and_then_def NewBroker_def Subscribe_def Unsubscribe_def
      Broadcast_def try_send_def make_chan_def)

text \<open>
  C3, amended. Once \<^verbatim>\<open>Close\<close> has been called and the event loop has processed it,
  every queue that was registered is closed, the registry is empty and
  \<^verbatim>\<open>ClientCount\<close> is 0; \<^verbatim>\<open>Broadcast\<close> still returns, without panic or error, and
  touches neither the registry nor any subscriber queue (the event only enters the
  intake while that has room); \<^verbatim>\<open>Subscribe\<close> and \<^verbatim>\<open>Unsubscribe\<close> never return; a
  second \<^verbatim>\<open>Close\<close> panics.
\<close>

theorem use_after_close:
  assumes "broker_inv b" and "running b" and "\<not> done_closed b"
  shows "\<exists>b1 b2. Close b = Returned b1 \<and> run_done b1 = Returned b2 \<and>
     (\<forall>c \<in> keys (clients b). \<exists>ch. chans b2 c = Some ch \<and> ch_closed ch) \<and>
     clients b2 = [] \<and> ClientCount b2 = 0 \<and>
     (\<forall>e. \<exists>b3. Broadcast b2 e = Returned b3 \<and> clients b3 = [] \<and> chans b3 = chans b2 \<and>
                 \<not> running b3 \<and> done_closed b3) \<and>
     Subscribe b2 = Blocked \<and>
     (\<forall>c. Unsubscribe b2 c = Blocked) \<and>
     Close b1 = Panicked \<and> Close b2 = Panicked"
proof -
  let ?b1 = "b\<lparr>done_closed := True\<rparr>"
  let ?h = "\<lambda>c. if c \<in> keys (clients b)
                then map_option (\<lambda>ch. ch\<lparr>ch_closed := True\<rparr>) (chans b c) else chans b c"
  let ?b2 = "?b1\<lparr>clients := [], chans := ?h, running := False\<rparr>"
  have c1: "Close b = Returned ?b1"
    using assms(3) by (simp add: Close_def)
  have inv1: "broker_inv ?b1"
    using assms(1) c1 by (rule broker_inv_Close)
  have "run_done ?b1 = Returned (?b1\<lparr>clients := [],
          chans := (\<lambda>c. if c \<in> keys (clients ?b1)
                          then map_option (\<lambda>ch. ch\<lparr>ch_closed := True\<rparr>) (chans ?b1 c)
                          else chans ?b1 c),
          running := False\<rparr>)"
    using inv1 by (rule run_done_effect) simp
  moreover have "(\<lambda>c. if c \<in> keys (clients ?b1)
                          then map_option (\<lambda>ch. ch\<lparr>ch_closed := True\<rparr>) (chans ?b1 c)
                          else chans ?b1 c) = ?h"
    by (simp add: fun_eq_iff)
  ultimately have r: "run_done ?b1 = Returned ?b2" by (simp only:)
  have inv2: "broker_inv ?b2"
    using inv1 r by (rule broker_inv_run_done)
  have closed: "\<exists>ch. chans ?b2 c = Some ch \<and> ch_closed ch" if cin: "c \<in> keys (clients b)" for c
    using broker_inv_registered [OF assms(1) cin] cin by auto
  have bc: "\<exists>b3. Broadcast ?b2 e = Returned b3 \<and> clients b3 = [] \<and> chans b3 = chans ?b2 \<and>
                 \<not> running b3 \<and> done_closed b3" for e
    using inv2 by (auto simp: Broadcast_def try_send_def and_then_def broker_inv_def)
  have "Subscribe ?b2 = Blocked" by (simp add: Subscribe_def)
  moreover have "\<forall>c. Unsubscribe ?b2 c = Blocked" by (simp add: Unsubscribe_def)
  moreover have "Close ?b1 = Panicked" "Close ?b2 = Panicked" by (simp_all add: Close_def)
  moreover have "clients ?b2 = []" "ClientCount ?b2 = 0" by (simp_all add: ClientCount_def)
  ultimately show ?thesis
    using c1 r closed bc by blast
qed

theorem use_after_close_witness:
  "\<exists>b1 b2.
     Close \<lparr>clients = [(0, True)], broadcast = make_chan 10, done_closed = False, running = True,
            chans = [0 \<mapsto> make_chan 5], next_ref = 1\<rparr> = Returned b1 \<and>
     run_done b1 = Returned b2 \<and>
     chans b2 0 = Some \<lparr>ch_buf = [], ch_cap = 5, ch_closed = True\<rparr> \<and>
     ClientCount b2 = 0 \<and>
     Broadcast b2 zero_Event \<noteq> Blocked \<and> Broadcast b2 zero_Event \<noteq> Panicked \<and>
     Subscribe b2 = Blocked \<and> Unsubscribe b2 0 = Blocked \<and> Close b2 = Panicked"
proof -
  let ?b = "\<lparr>clients = [(0, True)], broadcast = make_chan 10, done_closed = False, running = True,
            chans = [0 \<mapsto> make_chan 5], next_ref = 1\<rparr>"
  have h1: "broker_inv ?b"
    by (auto simp: broker_inv_def wf_map_def keys_def make_chan_def split: if_splits)
  have h2: "running ?b" and h3: "\<not> done_closed ?b" by simp_all
  obtain b1 b2 where c: "Close ?b = Returned b1" and r: "run_done b1 = Returned b2"
    and q: "\<forall>c \<in> keys (clients ?b). \<exists>ch. chans b2 c = Some ch \<and> ch_closed ch"
    and n: "ClientCount b2 = 0"
    and bc: "\<forall>e. \<exists>b3. Broadcast b2 e = Returned b3 \<and> clients b3 = [] \<and> chans b3 = chans b2 \<and>
                 \<not> running b3 \<and> done_closed b3"
    and s: "Subscribe b2 = Blocked" and u: "\<forall>c. Unsubscribe b2 c = Blocked"
    and p: "Close b2 = Panicked"
    using use_after_close [OF h1 h2 h3] by blast
  have b1: "b1 = ?b\<lparr>done_closed := True\<rparr>"
    using c by (simp add: Close_def)
  have "chans b2 0 = Some \<lparr>ch_buf = [], ch_cap = 5, ch_closed = True\<rparr>"
    using r unfolding b1
    by (auto simp: run_done_def close_ref_def close_chan_def and_then_def make_chan_def)
  moreover obtain b3 where "Broadcast b2 zero_Event = Returned b3"
    using bc by blast
  ultimately show ?thesis
    using c r n s u p by auto
qed

text \<open>
  C4. Closing the broker does not end a transport loop. After \<^verbatim>\<open>Subscribe\<close>,
  \<^verbatim>\<open>Close\<close> and the loop's processing of the close, the subscriber's queue is closed and
  empty. On that queue, with the request's context not cancelled, the loop of
  \<^verbatim>\<open>HandleSSE\<close> receives the zero event on every pass: after any number \<open>n\<close> of passes
  it is still looping and has written \<open>n\<close> empty frames.
\<close>

theorem transport_loops_after_close:
  "and_then (Subscribe NewBroker) (\<lambda>(b, c). and_then (Close b) run_done) =
     Returned \<lparr>clients = [], broadcast = make_chan 10, done_closed = True, running = False,
               chans = [0 \<mapsto> \<lparr>ch_buf = [], ch_cap = 5, ch_closed = True\<rparr>], next_ref = 1\<rparr> \<and>
   HandleSSE_loop n pick False \<lparr>ch_buf = [], ch_cap = 5, ch_closed = True\<rparr> w =
     Looping \<lparr>ch_buf = [], ch_cap = 5, ch_closed = True\<rparr>
       (w @ concat (replicate n (''event: '' @ [CHR 0x0A] @ ''data: '' @ [CHR 0x0A, CHR 0x0A])))"
proof
  show "and_then (Subscribe NewBroker) (\<lambda>(b, c). and_then (Close b) run_done) =
     Returned \<lparr>clients = [], broadcast = make_chan 10, done_closed = True, running = False,
               chans = [0 \<mapsto> \<lparr>ch_buf = [], ch_cap = 5, ch_closed = True\<rparr>], next_ref = 1\<rparr>"
    by (simp add: Subscribe_def NewBroker_def run_register_def Close_def run_done_def
        close_ref_def close_chan_def and_then_def make_chan_def)
next
  let ?ch = "\<lparr>ch_buf = [], ch_cap = 5, ch_closed = True\<rparr> :: Event chan"
  let ?frame = "''event: '' @ [CHR 0x0A] @ ''data: '' @ [CHR 0x0A, CHR 0x0A]"
  have r: "recv zero_Event ?ch = Returned (zero_Event, ?ch)"
    by (simp add: recv_def)
  have f: "write_event v zero_Event = v @ ?frame" for v
    by (simp add: write_event_def zero_Event_def)
  show "HandleSSE_loop n pick False ?ch w = Looping ?ch (w @ concat (replicate n ?frame))"
  proof (induction n arbitrary: w)
    case 0
    show ?case by simp
  next
    case (Suc n)
    have "HandleSSE_loop (Suc n) pick False ?ch w = HandleSSE_loop n pick False ?ch (w @ ?frame)"
      using r f by simp
    then show ?case using Suc [of "w @ ?frame"] by simp
  qed
qed

section \<open>Properties of the poller\<close>

lemma set_update_subset: "set (AList.update k v al) \<subseteq> insert (k, v) (set al)"
  by (induction al) auto

lemma fold_update_wf:
  assumes "wf_map acc"
  shows "wf_map (fold (\<lambda>x cs. AList.update (f x) (g x) cs) xs acc)"
  using assms by (induction xs arbitrary: acc) (simp_all add: wf_map_def distinct_update)

lemma fold_update_values:
  assumes "\<forall>(i, s) \<in> set acc. P s" and "\<forall>x \<in> set xs. P (g x)"
  shows "\<forall>(i, s) \<in> set (fold (\<lambda>x cs. AList.update (f x) (g x) cs) xs acc). P s"
  using assms
proof (induction xs arbitrary: acc)
  case Nil
  then show ?case by simp
next
  case (Cons x xs)
  have "\<forall>(i, s) \<in> set (AList.update (f x) (g x) acc). P s"
    using Cons.prems set_update_subset [of "f x" "g x" acc] by auto
  then show ?case
    using Cons by simp
qed

lemma wf_machines_machine_states: "wf_machines (machine_states machines)"
proof -
  have "wf_map (machine_states machines)"
    unfolding machine_states_def by (rule fold_update_wf) (simp add: wf_map_def)
  moreover have "\<forall>(i, s) \<in> set (machine_states machines).
      wf_map (ms_ApprovedRoutes s) \<and> wf_map (ms_Tags s)"
    unfolding machine_states_def
    by (rule fold_update_values) (simp_all add: machine_state_def wf_map_FromSlice)
  ultimately show ?thesis by (simp add: wf_machines_def)
qed

text \<open>
  \<^verbatim>\<open>ExitNodeStatus\<close> returns \<^verbatim>\<open>"Allowed"\<close>, \<^verbatim>\<open>"Awaiting approval"\<close> or the empty
  string, and \<^verbatim>\<open>pollMachineChanges\<close> compares it with \<^verbatim>\<open>"Approved"\<close>: the exit node
  flag of every state the poller builds is false.
\<close>

lemma machine_state_ExitNodeEnabled: "\<not> ms_ExitNodeEnabled (machine_state m)"
  by (simp add: machine_state_def ExitNodeStatus_def)

lemma wf_map_user_states: "wf_map (user_states users machineCounts)"
  unfolding user_states_def by (rule fold_update_wf) (simp add: wf_map_def)

lemma Broadcast_returns:
  assumes "broker_inv b"
  shows "\<exists>b'. Broadcast b e = Returned b' \<and> broker_inv b'"
proof -
  have "\<not> ch_closed (broadcast b)"
    using assms by (simp add: broker_inv_def)
  then have "\<exists>b'. Broadcast b e = Returned b'"
    by (simp add: Broadcast_def try_send_def and_then_def)
  then show ?thesis using assms broker_inv_Broadcast by blast
qed

lemma broadcastMachinesTableUpdate_returns:
  assumes "broker_inv (broker p)"
  shows "\<exists>p'. broadcastMachinesTableUpdate env p machines users = Returned p' \<and>
     steps p' = steps p @ [CallExecuteTemplate ''machines-table''] \<and>
     lastMachineStates p' = lastMachineStates p \<and> lastUserStates p' = lastUserStates p \<and>
     broker_inv (broker p')"
proof (cases "ExecuteTemplate env ''machines-table''
               [(''Machines'', VMachines machines), (''Users'', VUsers users)]")
  case (Inl err)
  then show ?thesis
    using assms by (simp add: broadcastMachinesTableUpdate_def took_def)
next
  case (Inr html)
  obtain b' where "Broadcast (broker p) \<lparr>ev_Type = ''machinesTable'', ev_HTML = html\<rparr> = Returned b'"
    and "broker_inv b'"
    using Broadcast_returns [OF assms] by blast
  then show ?thesis
    using Inr by (simp add: broadcastMachinesTableUpdate_def took_def and_then_def)
qed

lemma broadcastUsersTableUpdate_returns:
  assumes "broker_inv (broker p)"
  shows "\<exists>p'. broadcastUsersTableUpdate env p users = Returned p' \<and>
     steps p' = steps p @ [CallExecuteTemplate ''users-table''] \<and>
     lastMachineStates p' = lastMachineStates p \<and> lastUserStates p' = lastUserStates p \<and>
     broker_inv (broker p')"
proof (cases "ExecuteTemplate env ''users-table'' [(''Users'', VUsers users)]")
  case (Inl err)
  then show ?thesis
    using assms by (simp add: broadcastUsersTableUpdate_def took_def)
next
  case (Inr body)
  obtain b' where "Broadcast (broker p)
      \<lparr>ev_Type = ''usersTable'',
         ev_HTML = ''<div id=\"users-table\" hx-swap-oob=\"true\">'' @ body @ ''</div>''\<rparr> = Returned b'"
    and "broker_inv b'"
    using Broadcast_returns [OF assms] by blast
  then show ?thesis
    using Inr by (simp add: broadcastUsersTableUpdate_def took_def and_then_def)
qed

lemma detectMachineChanges_returns:
  "\<exists>changed. detectMachineChanges current previous = Returned changed"
proof -
  have "keys c \<subseteq> keys previous \<Longrightarrow> \<exists>r. changed_existing c previous = Returned r" for c
  proof (induction c)
    case Nil
    then show ?case by auto
  next
    case (Cons a c)
    obtain i s where a: "a = (i, s)" by (cases a)
    from Cons.prems a have "i \<in> keys previous" by (simp add: keys_def)
    then obtain p where "map_of previous i = Some p"
      by (metis map_of_None_keys not_Some_eq)
    moreover have "\<exists>r. changed_existing c previous = Returned r"
      using Cons by (simp add: keys_def)
    ultimately show ?case using a by auto
  qed
  then show ?thesis
    by (auto simp: detectMachineChanges_def missing_key_iff)
qed

lemma pollMachineChanges_returns:
  assumes "broker_inv (broker p)"
  shows "\<exists>p' xs. pollMachineChanges env p machines users = Returned p' \<and>
     steps p' = steps p @ RunDetectMachines # xs \<and> broker_inv (broker p') \<and>
     lastUserStates p' = lastUserStates p"
proof -
  let ?p1 = "took RunDetectMachines p"
  obtain changed where d: "detectMachineChanges (machine_states machines) (lastMachineStates p)
      = Returned changed"
    using detectMachineChanges_returns by blast
  show ?thesis
  proof (cases changed)
    case False
    then show ?thesis
      using d assms by (simp add: pollMachineChanges_def took_def and_then_def)
  next
    case True
    have "broker_inv (broker ?p1)" using assms by (simp add: took_def)
    then obtain p2 where "broadcastMachinesTableUpdate env ?p1 machines users = Returned p2"
      and "steps p2 = steps ?p1 @ [CallExecuteTemplate ''machines-table'']"
      and "broker_inv (broker p2)" and "lastUserStates p2 = lastUserStates ?p1"
      using broadcastMachinesTableUpdate_returns by blast
    then show ?thesis
      using d True by (simp add: pollMachineChanges_def took_def and_then_def)
  qed
qed

lemma pollUserChanges_returns:
  assumes "broker_inv (broker p)"
  shows "\<exists>p' xs. pollUserChanges env p users machineCounts = Returned p' \<and>
     steps p' = steps p @ RunDetectUsers # xs \<and> broker_inv (broker p')"
proof (cases "detectUserChanges (user_states users machineCounts) (lastUserStates p)")
  case False
  then show ?thesis
    using assms by (simp add: pollUserChanges_def took_def and_then_def)
next
  case True
  let ?p1 = "took RunDetectUsers p"
  have "broker_inv (broker ?p1)" using assms by (simp add: took_def)
  then obtain p2 where "broadcastUsersTableUpdate env ?p1 users = Returned p2"
    and "steps p2 = steps ?p1 @ [CallExecuteTemplate ''users-table'']"
    and "broker_inv (broker p2)"
    using broadcastUsersTableUpdate_returns by blast
  then show ?thesis
    using True by (simp add: pollUserChanges_def took_def and_then_def)
qed

text \<open>A tick with a subscriber always returns and starts by calling the fetcher.\<close>

lemma StartPolling_tick_fetches:
  assumes "broker_inv (broker p)" and "ClientCount (broker p) \<noteq> 0"
  shows "\<exists>p' xs. StartPolling_tick env p = Returned p' \<and>
     steps p' = steps p @ CallFetchMachines # xs"
proof (cases "FetchMachines env")
  case (Inl err)
  then show ?thesis
    using assms(2) by (simp add: StartPolling_tick_def took_def)
next
  case machines: (Inr machines)
  show ?thesis
  proof (cases "ListUsers env")
    case (Inl err)
    then show ?thesis
      using assms(2) machines by (simp add: StartPolling_tick_def took_def)
  next
    case users: (Inr users)
    let ?p2 = "took CallListUsers (took CallFetchMachines p)"
    have "broker_inv (broker ?p2)" using assms(1) by (simp add: took_def)
    then obtain p3 xs where p3: "pollMachineChanges env ?p2 machines users = Returned p3"
      "steps p3 = steps ?p2 @ RunDetectMachines # xs" "broker_inv (broker p3)"
      using pollMachineChanges_returns by blast
    then obtain p4 ys where p4: "pollUserChanges env p3 users (countMachinesPerUser machines) = Returned p4"
      "steps p4 = steps p3 @ RunDetectUsers # ys"
      using pollUserChanges_returns by blast
    show ?thesis
      using assms(2) machines users p3 p4
      by (simp add: StartPolling_tick_def took_def and_then_def)
  qed
qed

text \<open>
  C7. On a tick where \<^verbatim>\<open>ClientCount\<close> is 0 the poller does nothing: it returns with
  no step taken (no call of \<^verbatim>\<open>FetchMachines\<close>, \<^verbatim>\<open>ListUsers\<close> or the templates, no run
  of a detector), the same broker and the same two previous-state maps. With a
  subscriber, by contrast, the tick calls the fetcher.
\<close>

theorem poller_quiescent:
  "(ClientCount (broker p) = 0 \<longrightarrow>
      StartPolling_tick env p = Returned p) \<and>
   (broker_inv (broker p) \<and> ClientCount (broker p) \<noteq> 0 \<longrightarrow>
      (\<exists>p' xs. StartPolling_tick env p = Returned p' \<and>
          steps p' = steps p @ CallFetchMachines # xs))"
  using StartPolling_tick_fetches [of p env]
  by (simp add: StartPolling_tick_def)

theorem poller_quiescent_witness:
  "StartPolling_tick
     \<lparr>FetchMachines = Inr [\<lparr>m_Node = None, m_Online = True\<rparr>], ListUsers = Inr [],
      ExecuteTemplate = (\<lambda>name data. Inr ''<table/>'')\<rparr>
     \<lparr>broker = NewBroker, lastMachineStates = [], lastUserStates = [], steps = []\<rparr> =
   Returned \<lparr>broker = NewBroker, lastMachineStates = [], lastUserStates = [], steps = []\<rparr> \<and>
   (\<exists>p' xs.
      StartPolling_tick
        \<lparr>FetchMachines = Inr [\<lparr>m_Node = None, m_Online = True\<rparr>], ListUsers = Inr [],
         ExecuteTemplate = (\<lambda>name data. Inr ''<table/>'')\<rparr>
        \<lparr>broker = \<lparr>clients = [(0, True)], broadcast = make_chan 10, done_closed = False,
                    running = True, chans = [0 \<mapsto> make_chan 5], next_ref = 1\<rparr>, lastMachineStates = [], lastUserStates = [], steps = []\<rparr>
        = Returned p' \<and>
      steps p' = CallFetchMachines # xs)"
proof -
  let ?env = "\<lparr>FetchMachines = Inr [\<lparr>m_Node = None, m_Online = True\<rparr>], ListUsers = Inr [],
      ExecuteTemplate = (\<lambda>name data. Inr ''<table/>'')\<rparr>"
  let ?p = "\<lparr>broker = NewBroker, lastMachineStates = [], lastUserStates = [], steps = []\<rparr>"
  let ?q = "\<lparr>broker = \<lparr>clients = [(0, True)], broadcast = make_chan 10, done_closed = False,
                    running = True, chans = [0 \<mapsto> make_chan 5], next_ref = 1\<rparr>, lastMachineStates = [], lastUserStates = [], steps = []\<rparr>"
  have "ClientCount (broker ?p) = 0"
    by (simp add: ClientCount_def NewBroker_def)
  then have 1: "StartPolling_tick ?env ?p = Returned ?p"
    using poller_quiescent [of ?p ?env] by blast
  have "ClientCount (broker ?q) \<noteq> 0"
    by (simp add: ClientCount_def)
  moreover have "broker_inv (broker ?q)"
    by (simp add: broker_inv_def wf_map_def keys_def make_chan_def)
  ultimately have 2: "\<exists>p' xs. StartPolling_tick ?env ?q = Returned p' \<and>
          steps p' = steps ?q @ CallFetchMachines # xs"
    using poller_quiescent [of ?q ?env] by blast
  show ?thesis using 1 2 by simp
qed

text \<open>
  C10. The two entity classes are not polled independently: on a tick with a
  subscriber where \<^verbatim>\<open>FetchMachines\<close> succeeds and \<^verbatim>\<open>ListUsers\<close> fails, the tick ends
  after the two calls. Neither detector runs, nothing is rendered or broadcast, and both
  previous-state maps stay as they were.
\<close>

theorem user_fetch_failure_skips_machines:
  assumes "ClientCount (broker p) \<noteq> 0"
    and "FetchMachines env = Inr machines"
    and "ListUsers env = Inl err"
  shows "\<exists>p'. StartPolling_tick env p = Returned p' \<and>
     steps p' = steps p @ [CallFetchMachines, CallListUsers] \<and>
     broker p' = broker p \<and>
     lastMachineStates p' = lastMachineStates p \<and>
     lastUserStates p' = lastUserStates p"
  using assms by (simp add: StartPolling_tick_def took_def)

theorem user_fetch_failure_skips_machines_witness:
  "\<exists>p'. StartPolling_tick
      \<lparr>FetchMachines = Inr [\<lparr>m_Node = None, m_Online = True\<rparr>],
       ListUsers = Inl (Error ''unavailable''),
       ExecuteTemplate = (\<lambda>name data. Inr ''<table/>'')\<rparr>
      \<lparr>broker = \<lparr>clients = [(0, True)], broadcast = make_chan 10, done_closed = False,
                  running = True, chans = [0 \<mapsto> make_chan 5], next_ref = 1\<rparr>,
       lastMachineStates = [], lastUserStates = [], steps = []\<rparr> = Returned p' \<and>
     steps p' = [CallFetchMachines, CallListUsers] \<and>
     broker p' = \<lparr>clients = [(0, True)], broadcast = make_chan 10, done_closed = False,
                  running = True, chans = [0 \<mapsto> make_chan 5], next_ref = 1\<rparr> \<and>
     lastMachineStates p' = [] \<and> lastUserStates p' = []"
proof -
  let ?env = "\<lparr>FetchMachines = Inr [\<lparr>m_Node = None, m_Online = True\<rparr>],
       ListUsers = Inl (Error ''unavailable''),
       ExecuteTemplate = (\<lambda>name data. Inr ''<table/>'')\<rparr>"
  let ?p = "\<lparr>broker = \<lparr>clients = [(0, True)], broadcast = make_chan 10, done_closed = False,
                  running = True, chans = [0 \<mapsto> make_chan 5], next_ref = 1\<rparr>,
       lastMachineStates = [], lastUserStates = [], steps = []\<rparr>"
  have h1: "ClientCount (broker ?p) \<noteq> 0" by (simp add: ClientCount_def)
  have h2: "FetchMachines ?env = Inr [\<lparr>m_Node = None, m_Online = True\<rparr>]" by simp
  have h3: "ListUsers ?env = Inl (Error ''unavailable'')" by simp
  show ?thesis
    using user_fetch_failure_skips_machines [OF h1 h2 h3] by simp
qed

text \<open>
  C8. When a machine change is detected and rendering the table fails, nothing is
  broadcast (the broker is left as it was) and the previous-state map is still replaced
  by the freshly built one. A following poll that finds the same state (the same
  identities with the same tracked values) detects no change and neither renders nor
  broadcasts. A following poll that finds a different state renders again and, when the
  rendering succeeds, broadcasts the full table: the broker is what \<^verbatim>\<open>Broadcast\<close> of the
  \<^verbatim>\<open>machinesTable\<close> event returns, with the event at the end of the intake when that
  had room; when the rendering fails again the broker is again left as it was.
\<close>

theorem render_failure_advances_state:
  assumes "broker_inv (broker p)"
    and "detectMachineChanges (machine_states machines) (lastMachineStates p) = Returned True"
    and "ExecuteTemplate env ''machines-table''
           [(''Machines'', VMachines machines), (''Users'', VUsers users)] = Inl err"
  shows "\<exists>p'. pollMachineChanges env p machines users = Returned p' \<and>
     steps p' = steps p @ [RunDetectMachines, CallExecuteTemplate ''machines-table''] \<and>
     broker p' = broker p \<and>
     lastMachineStates p' = machine_states machines \<and>
     (\<forall>env' machines' users'.
        same_entries same_machine (machine_states machines') (machine_states machines) \<longrightarrow>
          (\<exists>p''. pollMachineChanges env' p' machines' users' = Returned p'' \<and>
                 steps p'' = steps p' @ [RunDetectMachines] \<and>
                 broker p'' = broker p' \<and>
                 lastMachineStates p'' = machine_states machines')) \<and>
     (\<forall>env' machines' users'.
        \<not> same_entries same_machine (machine_states machines') (machine_states machines) \<longrightarrow>
          (\<exists>p''. pollMachineChanges env' p' machines' users' = Returned p'' \<and>
                 steps p'' = steps p' @ [RunDetectMachines, CallExecuteTemplate ''machines-table''] \<and>
                 lastMachineStates p'' = machine_states machines' \<and>
                 (\<forall>html. ExecuteTemplate env' ''machines-table''
                            [(''Machines'', VMachines machines'), (''Users'', VUsers users')] = Inr html \<longrightarrow>
                    Broadcast (broker p') \<lparr>ev_Type = ''machinesTable'', ev_HTML = html\<rparr>
                      = Returned (broker p'') \<and>
                    (length (ch_buf (broadcast (broker p'))) < 10 \<longrightarrow>
                       ch_buf (broadcast (broker p'')) =
                         ch_buf (broadcast (broker p')) @ [\<lparr>ev_Type = ''machinesTable'', ev_HTML = html\<rparr>])) \<and>
                 (\<forall>err'. ExecuteTemplate env' ''machines-table''
                            [(''Machines'', VMachines machines'), (''Users'', VUsers users')] = Inl err' \<longrightarrow>
                    broker p'' = broker p')))"
proof -
  let ?p1 = "took RunDetectMachines p"
  let ?p' = "(took (CallExecuteTemplate ''machines-table'') ?p1)
               \<lparr>lastMachineStates := machine_states machines\<rparr>"
  have first: "pollMachineChanges env p machines users = Returned ?p'"
    using assms(2,3)
    by (simp add: pollMachineChanges_def broadcastMachinesTableUpdate_def took_def and_then_def)
  have bp: "broker ?p' = broker p" by (simp add: took_def)
  have same: "\<exists>p''. pollMachineChanges env' ?p' machines' users' = Returned p'' \<and>
                 steps p'' = steps ?p' @ [RunDetectMachines] \<and>
                 broker p'' = broker ?p' \<and>
                 lastMachineStates p'' = machine_states machines'"
    if "same_entries same_machine (machine_states machines') (machine_states machines)"
    for env' machines' users'
  proof -
    have "detectMachineChanges (machine_states machines') (machine_states machines) = Returned False"
      using that by (simp add: detectMachineChanges_iff wf_machines_machine_states)
    then show ?thesis
      by (simp add: pollMachineChanges_def took_def and_then_def)
  qed
  have differ: "\<exists>p''. pollMachineChanges env' ?p' machines' users' = Returned p'' \<and>
         steps p'' = steps ?p' @ [RunDetectMachines, CallExecuteTemplate ''machines-table''] \<and>
         lastMachineStates p'' = machine_states machines' \<and>
         (\<forall>html. ExecuteTemplate env' ''machines-table''
                    [(''Machines'', VMachines machines'), (''Users'', VUsers users')] = Inr html \<longrightarrow>
            Broadcast (broker ?p') \<lparr>ev_Type = ''machinesTable'', ev_HTML = html\<rparr>
              = Returned (broker p'') \<and>
            (length (ch_buf (broadcast (broker ?p'))) < 10 \<longrightarrow>
               ch_buf (broadcast (broker p'')) =
                 ch_buf (broadcast (broker ?p')) @ [\<lparr>ev_Type = ''machinesTable'', ev_HTML = html\<rparr>])) \<and>
         (\<forall>err'. ExecuteTemplate env' ''machines-table''
                    [(''Machines'', VMachines machines'), (''Users'', VUsers users')] = Inl err' \<longrightarrow>
            broker p'' = broker ?p')"
    if ne: "\<not> same_entries same_machine (machine_states machines') (machine_states machines)"
    for env' machines' users'
  proof -
    let ?q1 = "took RunDetectMachines ?p'"
    let ?q2 = "took (CallExecuteTemplate ''machines-table'') ?q1"
    have d: "detectMachineChanges (machine_states machines') (lastMachineStates ?q1) = Returned True"
      using ne by (simp add: detectMachineChanges_iff wf_machines_machine_states took_def)
    have bq: "broker ?q2 = broker p" by (simp add: took_def)
    show ?thesis
    proof (cases "ExecuteTemplate env' ''machines-table''
                    [(''Machines'', VMachines machines'), (''Users'', VUsers users')]")
      case (Inl err')
      then have "pollMachineChanges env' ?p' machines' users' =
          Returned (?q2\<lparr>lastMachineStates := machine_states machines'\<rparr>)"
        using d by (simp add: pollMachineChanges_def broadcastMachinesTableUpdate_def
            Let_def and_then_def)
      then show ?thesis
        using Inl by (simp add: took_def)
    next
      case (Inr html)
      let ?ev = "\<lparr>ev_Type = ''machinesTable'', ev_HTML = html\<rparr>"
      obtain b' where b': "Broadcast (broker p) ?ev = Returned b'"
        using Broadcast_returns [OF assms(1)] by blast
      have room: "ch_buf (broadcast b') = ch_buf (broadcast (broker p)) @ [?ev]"
        if "length (ch_buf (broadcast (broker p))) < 10"
        using that b' assms(1)
        by (auto simp: Broadcast_def try_send_def and_then_def broker_inv_def split: if_splits)
      have "broadcastMachinesTableUpdate env' ?q1 machines' users' = Returned (?q2\<lparr>broker := b'\<rparr>)"
        using Inr b' bq by (simp add: broadcastMachinesTableUpdate_def Let_def and_then_def)
      then have "pollMachineChanges env' ?p' machines' users' =
          Returned (?q2\<lparr>broker := b', lastMachineStates := machine_states machines'\<rparr>)"
        using d by (simp add: pollMachineChanges_def Let_def and_then_def)
      then show ?thesis
        using Inr b' room bp by (simp add: took_def)
    qed
  qed
  have "steps ?p' = steps p @ [RunDetectMachines, CallExecuteTemplate ''machines-table'']"
    and "lastMachineStates ?p' = machine_states machines"
    by (simp_all add: took_def)
  then show ?thesis
    using first bp same differ by blast
qed


theorem render_failure_advances_state_witness:
  "\<exists>p'. pollMachineChanges
       \<lparr>FetchMachines = Inr [], ListUsers = Inr [],
        ExecuteTemplate = (\<lambda>name data. Inl (Error ''template''))\<rparr>
       \<lparr>broker = \<lparr>clients = [(0, True)], broadcast = make_chan 10, done_closed = False,
                   running = True, chans = [0 \<mapsto> make_chan 5], next_ref = 1\<rparr>,
        lastMachineStates = [], lastUserStates = [], steps = []\<rparr>
       [\<lparr>m_Node = Some \<lparr>node_Id = 1, node_User = None, node_ForcedTags = [],
                          node_ApprovedRoutes = [''10.0.0.0/24''], node_AvailableRoutes = []\<rparr>,
         m_Online = True\<rparr>] [] = Returned p' \<and>
     broker p' = \<lparr>clients = [(0, True)], broadcast = make_chan 10, done_closed = False,
                   running = True, chans = [0 \<mapsto> make_chan 5], next_ref = 1\<rparr> \<and>
     map fst (lastMachineStates p') = [1] \<and>
     (\<exists>p''. pollMachineChanges
        \<lparr>FetchMachines = Inr [], ListUsers = Inr [],
         ExecuteTemplate = (\<lambda>name data. Inr ''<table/>'')\<rparr> p'
        [\<lparr>m_Node = Some \<lparr>node_Id = 1, node_User = None, node_ForcedTags = [],
                          node_ApprovedRoutes = [''10.0.0.0/24''], node_AvailableRoutes = []\<rparr>,
          m_Online = True\<rparr>] [] = Returned p'' \<and>
        steps p'' = steps p' @ [RunDetectMachines] \<and> broker p'' = broker p') \<and>
     (\<exists>p''. pollMachineChanges
        \<lparr>FetchMachines = Inr [], ListUsers = Inr [],
         ExecuteTemplate = (\<lambda>name data. Inr ''<table/>'')\<rparr> p'
        [\<lparr>m_Node = Some \<lparr>node_Id = 1, node_User = None, node_ForcedTags = [],
                          node_ApprovedRoutes = [''10.0.0.0/24''], node_AvailableRoutes = []\<rparr>,
          m_Online = False\<rparr>] [] = Returned p'' \<and>
        steps p'' = steps p' @ [RunDetectMachines, CallExecuteTemplate ''machines-table''] \<and>
        ch_buf (broadcast (broker p'')) = [\<lparr>ev_Type = ''machinesTable'', ev_HTML = ''<table/>''\<rparr>]) \<and>
     (\<exists>p''. pollMachineChanges
        \<lparr>FetchMachines = Inr [], ListUsers = Inr [],
         ExecuteTemplate = (\<lambda>name data. Inl (Error ''template''))\<rparr> p'
        [\<lparr>m_Node = Some \<lparr>node_Id = 1, node_User = None, node_ForcedTags = [],
                          node_ApprovedRoutes = [''10.0.0.0/24''], node_AvailableRoutes = []\<rparr>,
          m_Online = False\<rparr>] [] = Returned p'' \<and>
        broker p'' = broker p')"
proof -
  let ?bad = "\<lparr>FetchMachines = Inr [], ListUsers = Inr [],
        ExecuteTemplate = (\<lambda>name data. Inl (Error ''template''))\<rparr>"
  let ?good = "\<lparr>FetchMachines = Inr [], ListUsers = Inr [],
         ExecuteTemplate = (\<lambda>name data. Inr ''<table/>'')\<rparr>"
  let ?b = "\<lparr>clients = [(0, True)], broadcast = make_chan 10, done_closed = False,
                   running = True, chans = [0 \<mapsto> make_chan 5], next_ref = 1\<rparr>"
  let ?p = "\<lparr>broker = ?b, lastMachineStates = [], lastUserStates = [], steps = []\<rparr>"
  let ?n = "\<lparr>node_Id = 1, node_User = None, node_ForcedTags = [],
                          node_ApprovedRoutes = [''10.0.0.0/24''], node_AvailableRoutes = []\<rparr>"
  let ?on = "\<lparr>m_Node = Some ?n, m_Online = True\<rparr>"
  let ?off = "\<lparr>m_Node = Some ?n, m_Online = False\<rparr>"
  let ?ev = "\<lparr>ev_Type = ''machinesTable'', ev_HTML = ''<table/>''\<rparr>"
  have h1: "broker_inv (broker ?p)"
    by (simp add: broker_inv_def wf_map_def keys_def make_chan_def)
  have on: "machine_states [?on] = [(1, machine_state ?on)]"
    and off: "machine_states [?off] = [(1, machine_state ?off)]"
    by (simp_all add: machine_states_def Machine_ID_def)
  have h2: "detectMachineChanges (machine_states [?on]) (lastMachineStates ?p) = Returned True"
    by (simp add: on detectMachineChanges_def)
  have h3: "ExecuteTemplate ?bad ''machines-table''
           [(''Machines'', VMachines [?on]), (''Users'', VUsers [])] = Inl (Error ''template'')"
    by simp
  have s1: "same_entries same_machine (machine_states [?on]) (machine_states [?on])"
    by (simp add: on same_entries_def same_machine_def)
  have s2: "\<not> same_entries same_machine (machine_states [?off]) (machine_states [?on])"
    by (simp add: on off same_entries_def same_machine_def machine_state_def)
  obtain p' where first: "pollMachineChanges ?bad ?p [?on] [] = Returned p'"
    and b: "broker p' = broker ?p"
    and l: "lastMachineStates p' = machine_states [?on]"
    and same: "\<forall>env' machines' users'.
        same_entries same_machine (machine_states machines') (machine_states [?on]) \<longrightarrow>
          (\<exists>p''. pollMachineChanges env' p' machines' users' = Returned p'' \<and>
                 steps p'' = steps p' @ [RunDetectMachines] \<and>
                 broker p'' = broker p' \<and>
                 lastMachineStates p'' = machine_states machines')"
    and differ: "\<forall>env' machines' users'.
        \<not> same_entries same_machine (machine_states machines') (machine_states [?on]) \<longrightarrow>
          (\<exists>p''. pollMachineChanges env' p' machines' users' = Returned p'' \<and>
                 steps p'' = steps p' @ [RunDetectMachines, CallExecuteTemplate ''machines-table''] \<and>
                 lastMachineStates p'' = machine_states machines' \<and>
                 (\<forall>html. ExecuteTemplate env' ''machines-table''
                            [(''Machines'', VMachines machines'), (''Users'', VUsers users')] = Inr html \<longrightarrow>
                    Broadcast (broker p') \<lparr>ev_Type = ''machinesTable'', ev_HTML = html\<rparr>
                      = Returned (broker p'') \<and>
                    (length (ch_buf (broadcast (broker p'))) < 10 \<longrightarrow>
                       ch_buf (broadcast (broker p'')) =
                         ch_buf (broadcast (broker p')) @ [\<lparr>ev_Type = ''machinesTable'', ev_HTML = html\<rparr>])) \<and>
                 (\<forall>err'. ExecuteTemplate env' ''machines-table''
                            [(''Machines'', VMachines machines'), (''Users'', VUsers users')] = Inl err' \<longrightarrow>
                    broker p'' = broker p'))"
    using render_failure_advances_state [OF h1 h2 h3] by blast
  have t1: "\<exists>p''. pollMachineChanges ?good p' [?on] [] = Returned p'' \<and>
        steps p'' = steps p' @ [RunDetectMachines] \<and> broker p'' = broker p'"
    using same [rule_format, OF s1, of ?good "[]"] by blast
  obtain q where q: "pollMachineChanges ?good p' [?off] [] = Returned q"
    and qs: "steps q = steps p' @ [RunDetectMachines, CallExecuteTemplate ''machines-table'']"
    and qb: "\<forall>html. ExecuteTemplate ?good ''machines-table''
                [(''Machines'', VMachines [?off]), (''Users'', VUsers [])] = Inr html \<longrightarrow>
              Broadcast (broker p') \<lparr>ev_Type = ''machinesTable'', ev_HTML = html\<rparr> = Returned (broker q) \<and>
              (length (ch_buf (broadcast (broker p'))) < 10 \<longrightarrow>
                 ch_buf (broadcast (broker q)) =
                   ch_buf (broadcast (broker p')) @ [\<lparr>ev_Type = ''machinesTable'', ev_HTML = html\<rparr>])"
    using differ [rule_format, OF s2, of ?good "[]"] by blast
  have "ch_buf (broadcast (broker q)) = [?ev]"
    using qb [rule_format, of "''<table/>''"] b by (simp add: make_chan_def)
  then have t2: "\<exists>p''. pollMachineChanges ?good p' [?off] [] = Returned p'' \<and>
        steps p'' = steps p' @ [RunDetectMachines, CallExecuteTemplate ''machines-table''] \<and>
        ch_buf (broadcast (broker p'')) = [?ev]"
    using q qs by blast
  obtain r where r: "pollMachineChanges ?bad p' [?off] [] = Returned r"
    and rb: "\<forall>err'. ExecuteTemplate ?bad ''machines-table''
                [(''Machines'', VMachines [?off]), (''Users'', VUsers [])] = Inl err' \<longrightarrow>
              broker r = broker p'"
    using differ [rule_format, OF s2, of ?bad "[]"] by blast
  have "broker r = broker p'"
    using rb [rule_format, of "Error ''template''"] by simp
  then have t3: "\<exists>p''. pollMachineChanges ?bad p' [?off] [] = Returned p'' \<and> broker p'' = broker p'"
    using r by blast
  have "map fst (lastMachineStates p') = [1]"
    using l by (simp add: on)
  then show ?thesis
    using first b t1 t2 t3 by auto
qed

end
